theory Spec2Isabelle
  imports Complex_Main "HOL-Library.Word" "HOL-Library.Multiset"
    "HOL-Library.Product_Lexorder"
begin

section \<open>Machine Boss: evaluated machines, parameters and base-calling state indices\<close>

text \<open>
  A shallow embedding of \<^verbatim>\<open>src/eval.cpp\<close>, \<^verbatim>\<open>src/params.cpp\<close>, \<^verbatim>\<open>src/machine.h\<close> and
  \<^verbatim>\<open>src/nano/caller.h\<close>. Every function that can stop the program (an assertion, a
  \<^verbatim>\<open>map::at\<close> on a missing key, a library error handler) returns a sum, \<open>Inl\<close> the error.
\<close>

subsection \<open>State indices of the base-calling machine (\<^verbatim>\<open>nano/caller.h\<close>)\<close>

text \<open>
  \<^verbatim>\<open>components\<close> and \<^verbatim>\<open>nKmers\<close> are C++ \<^verbatim>\<open>int\<close>s: 32-bit words read as two's complement
  by \<open>sint\<close>. Signed overflow is undefined in C++, so the two \<^verbatim>\<open>int\<close> operations return
  \<open>None\<close> where the exact result does not fit. \<^verbatim>\<open>StateIndex\<close> is \<^verbatim>\<open>unsigned long long\<close>
  (\<^verbatim>\<open>machine.h\<close>), a 64-bit word whose arithmetic wraps. \<^verbatim>\<open>Kmer\<close> is declared in
  \<^verbatim>\<open>fastseq.h\<close>, which is not among the sources; it is taken to be an unsigned 64-bit
  integer as well. In \<^verbatim>\<open>1 + component * nKmers + kmer\<close> the product and the sum with 1
  are \<^verbatim>\<open>int\<close> operations; their result is converted to the unsigned type (\<open>scast\<close>,
  sign extension) before \<^verbatim>\<open>kmer\<close> is added.
\<close>

type_synonym c_int = "32 word"
type_synonym StateIndex = "64 word"
type_synonym Kmer = "64 word"

definition int_fits :: "int \<Rightarrow> bool" where
  "int_fits r \<longleftrightarrow> - (2 ^ 31) \<le> r \<and> r < 2 ^ 31"

definition int_mul :: "c_int \<Rightarrow> c_int \<Rightarrow> c_int option" where
  "int_mul a b = (if int_fits (sint a * sint b) then Some (a * b) else None)"

definition int_add :: "c_int \<Rightarrow> c_int \<Rightarrow> c_int option" where
  "int_add a b = (if int_fits (sint a + sint b) then Some (a + b) else None)"

record BaseCallingMachine =
  components :: c_int
  nKmers :: c_int

definition kmerEmit :: "BaseCallingMachine \<Rightarrow> Kmer \<Rightarrow> c_int \<Rightarrow> StateIndex option" where
  "kmerEmit m kmer component =
     Option.bind (int_mul component (nKmers m)) (\<lambda>p.
     Option.bind (int_add 1 p) (\<lambda>q. Some (scast q + kmer)))"

definition kmerEnd :: "BaseCallingMachine \<Rightarrow> Kmer \<Rightarrow> StateIndex option" where
  "kmerEnd m kmer =
     Option.bind (int_mul (components m) (nKmers m)) (\<lambda>p.
     Option.bind (int_add 1 p) (\<lambda>q. Some (scast q + kmer)))"

definition kmerStart :: "BaseCallingMachine \<Rightarrow> Kmer \<Rightarrow> StateIndex option" where
  "kmerStart m kmer =
     Option.bind (int_add (components m) 1) (\<lambda>c.
     Option.bind (int_mul c (nKmers m)) (\<lambda>p.
     Option.bind (int_add 1 p) (\<lambda>q. Some (scast q + kmer))))"

text \<open>The exact integers the spec's formulas denote.\<close>

definition emit_formula :: "BaseCallingMachine \<Rightarrow> Kmer \<Rightarrow> c_int \<Rightarrow> int" where
  "emit_formula m kmer component = 1 + sint component * sint (nKmers m) + uint kmer"

definition end_formula :: "BaseCallingMachine \<Rightarrow> Kmer \<Rightarrow> int" where
  "end_formula m kmer = 1 + sint (components m) * sint (nKmers m) + uint kmer"

definition start_formula :: "BaseCallingMachine \<Rightarrow> Kmer \<Rightarrow> int" where
  "start_formula m kmer = 1 + (sint (components m) + 1) * sint (nKmers m) + uint kmer"

text \<open>
  The inputs on which the C++ arithmetic is the arithmetic of the integers: no \<^verbatim>\<open>int\<close>
  operation overflows and the index is a value of \<^verbatim>\<open>StateIndex\<close>.
\<close>

definition emit_in_range :: "BaseCallingMachine \<Rightarrow> Kmer \<Rightarrow> c_int \<Rightarrow> bool" where
  "emit_in_range m kmer component \<longleftrightarrow>
     int_fits (sint component * sint (nKmers m)) \<and>
     int_fits (1 + sint component * sint (nKmers m)) \<and>
     0 \<le> emit_formula m kmer component \<and> emit_formula m kmer component < 2 ^ 64"

definition end_in_range :: "BaseCallingMachine \<Rightarrow> Kmer \<Rightarrow> bool" where
  "end_in_range m kmer \<longleftrightarrow>
     int_fits (sint (components m) * sint (nKmers m)) \<and>
     int_fits (1 + sint (components m) * sint (nKmers m)) \<and>
     0 \<le> end_formula m kmer \<and> end_formula m kmer < 2 ^ 64"

definition start_in_range :: "BaseCallingMachine \<Rightarrow> Kmer \<Rightarrow> bool" where
  "start_in_range m kmer \<longleftrightarrow>
     int_fits (sint (components m) + 1) \<and>
     int_fits ((sint (components m) + 1) * sint (nKmers m)) \<and>
     int_fits (1 + (sint (components m) + 1) * sint (nKmers m)) \<and>
     0 \<le> start_formula m kmer \<and> start_formula m kmer < 2 ^ 64"

text \<open>
  The arguments for which no \<^verbatim>\<open>int\<close> operation of the expression overflows; the
  conversion to \<^verbatim>\<open>StateIndex\<close> and the sum with \<^verbatim>\<open>kmer\<close> are unsigned and wrap.
\<close>

definition emit_no_overflow :: "BaseCallingMachine \<Rightarrow> c_int \<Rightarrow> bool" where
  "emit_no_overflow m component \<longleftrightarrow>
     int_fits (sint component * sint (nKmers m)) \<and>
     int_fits (1 + sint component * sint (nKmers m))"

definition end_no_overflow :: "BaseCallingMachine \<Rightarrow> bool" where
  "end_no_overflow m \<longleftrightarrow>
     int_fits (sint (components m) * sint (nKmers m)) \<and>
     int_fits (1 + sint (components m) * sint (nKmers m))"

definition start_no_overflow :: "BaseCallingMachine \<Rightarrow> bool" where
  "start_no_overflow m \<longleftrightarrow>
     int_fits (sint (components m) + 1) \<and>
     int_fits ((sint (components m) + 1) * sint (nKmers m)) \<and>
     int_fits (1 + (sint (components m) + 1) * sint (nKmers m))"

subsection \<open>Numbers\<close>

text \<open>
  A C++ \<^verbatim>\<open>double\<close> is a real number, plus or minus infinity, or not-a-number; rounding,
  overflow and underflow of finite results are left out (every finite result is exact).
  \<^verbatim>\<open>log\<close> of zero is minus infinity and of a negative number NaN; \<^verbatim>\<open>exp\<close> of minus
  infinity is zero; a comparison with NaN is false.
\<close>

datatype double = Fin real | PInf | NInf | NaN

fun d_add :: "double \<Rightarrow> double \<Rightarrow> double" where
  "d_add (Fin a) (Fin b) = Fin (a + b)"
| "d_add NaN _ = NaN"
| "d_add _ NaN = NaN"
| "d_add PInf NInf = NaN"
| "d_add NInf PInf = NaN"
| "d_add PInf _ = PInf"
| "d_add _ PInf = PInf"
| "d_add NInf _ = NInf"
| "d_add _ NInf = NInf"

fun d_neg :: "double \<Rightarrow> double" where
  "d_neg (Fin a) = Fin (- a)"
| "d_neg PInf = NInf"
| "d_neg NInf = PInf"
| "d_neg NaN = NaN"

definition d_sub :: "double \<Rightarrow> double \<Rightarrow> double" where
  "d_sub a b = d_add a (d_neg b)"

fun d_exp :: "double \<Rightarrow> double" where
  "d_exp (Fin a) = Fin (exp a)"
| "d_exp PInf = PInf"
| "d_exp NInf = Fin 0"
| "d_exp NaN = NaN"

fun d_log :: "double \<Rightarrow> double" where
  "d_log (Fin a) = (if 0 < a then Fin (ln a) else if a = 0 then NInf else NaN)"
| "d_log PInf = PInf"
| "d_log NInf = NaN"
| "d_log NaN = NaN"

fun d_gt :: "double \<Rightarrow> double \<Rightarrow> bool" where
  "d_gt (Fin a) (Fin b) = (b < a)"
| "d_gt PInf (Fin _) = True"
| "d_gt PInf NInf = True"
| "d_gt (Fin _) NInf = True"
| "d_gt _ _ = False"

definition d_ge :: "double \<Rightarrow> double \<Rightarrow> bool" where
  "d_ge a b \<longleftrightarrow> d_gt a b \<or> (a = b \<and> a \<noteq> NaN)"

text \<open>\<^verbatim>\<open>#define SuspiciouslyLargeProbabilityWarningThreshold 1.01\<close>\<close>

definition SuspiciouslyLargeProbabilityWarningThreshold :: double where
  "SuspiciouslyLargeProbabilityWarningThreshold = Fin (101 / 100)"

subsection \<open>JSON values and errors\<close>

datatype json =
    JNull
  | JBool bool
  | JNumber real
  | JString string
  | JArray "json list"
  | JObject "(string \<times> json) list"

text \<open>
  The ways a call can stop: the assertion at the head of \<^verbatim>\<open>EvaluatedMachine::init\<close>,
  \<^verbatim>\<open>map::at\<close> on a symbol that has no token, an index outside a vector, a failure of weight
  evaluation, the linear-algebra library stopping the program through its error handler,
  a JSON document that does not validate, and a JSON value of the wrong type.
\<close>

datatype error =
    NotAdvancing
  | MissingSymbol string
  | StateOutOfRange nat
  | TokenOutOfRange nat
  | UnboundParameter string
  | DomainError
  | LibraryFailure
  | SchemaViolation
  | TypeError

subsection \<open>The symbolic machine (\<^verbatim>\<open>machine.h\<close>)\<close>

text \<open>
  In \<^verbatim>\<open>eval.cpp\<close> a state index is only compared and used to index a vector, so it is a
  natural number here. The type of weight expressions, \<^verbatim>\<open>WeightExpr\<close>, is declared in
  \<^verbatim>\<open>weight.h\<close>, which is not among the sources: it is the type parameter \<open>'w\<close>.
\<close>

record 'w MachineTransition =
  trans_in :: string
  trans_out :: string
  dest :: nat
  weight :: 'w

definition inputEmpty :: "'w MachineTransition \<Rightarrow> bool" where
  "inputEmpty t \<longleftrightarrow> trans_in t = []"

definition outputEmpty :: "'w MachineTransition \<Rightarrow> bool" where
  "outputEmpty t \<longleftrightarrow> trans_out t = []"

definition isSilent :: "'w MachineTransition \<Rightarrow> bool" where
  "isSilent t \<longleftrightarrow> inputEmpty t \<and> outputEmpty t"

record 'w MachineState =
  name :: json
  trans :: "'w MachineTransition list"

record 'w Machine =
  state :: "'w MachineState list"

definition nStates :: "'w Machine \<Rightarrow> nat" where
  "nStates m = length (Machine.state m)"

text \<open>
  Modelled from the spec: \<^verbatim>\<open>Machine::isAdvancingMachine\<close> is defined in \<^verbatim>\<open>machine.cpp\<close>,
  which is not among the sources. Its declaration carries the comment
  \<^verbatim>\<open>no silent i->j transitions where j<i\<close>, as the spec's glossary has it.
\<close>

definition isAdvancingMachine :: "'w Machine \<Rightarrow> bool" where
  "isAdvancingMachine m \<longleftrightarrow>
     list_all (\<lambda>(i, ms). list_all (\<lambda>t. isSilent t \<longrightarrow> i \<le> dest t) (trans ms))
       (enumerate 0 (Machine.state m))"

text \<open>
  Modelled from the spec: \<^verbatim>\<open>Machine::inputAlphabet\<close> and \<^verbatim>\<open>outputAlphabet\<close>
  (\<^verbatim>\<open>machine.cpp\<close>) enumerate the distinct non-empty labels in first-seen order.
\<close>

definition first_seen :: "string list \<Rightarrow> string list" where
  "first_seen xs = rev (remdups (rev (filter (\<lambda>x. x \<noteq> []) xs)))"

definition inputAlphabet :: "'w Machine \<Rightarrow> string list" where
  "inputAlphabet m = first_seen (map trans_in (concat (map trans (Machine.state m))))"

definition outputAlphabet :: "'w Machine \<Rightarrow> string list" where
  "outputAlphabet m = first_seen (map trans_out (concat (map trans (Machine.state m))))"

subsection \<open>Tokenizers and the evaluated machine (\<^verbatim>\<open>eval.h\<close>, \<^verbatim>\<open>eval.cpp\<close>)\<close>

text \<open>
  Modelled from the spec: the tokenizer class is declared in \<^verbatim>\<open>eval.h\<close>, which is not
  among the sources. It holds the vector \<^verbatim>\<open>tok2sym\<close> and the map \<^verbatim>\<open>sym2tok\<close>; token 0
  is reserved for the empty symbol and the symbols of the alphabet get 1, 2, ... in order.
\<close>

record Tokenizer =
  tok2sym :: "string list"
  sym2tok :: "string \<rightharpoonup> nat"

definition Tokenizer_new :: "string list \<Rightarrow> Tokenizer" where
  "Tokenizer_new syms =
     \<lparr> tok2sym = [] # syms,
       sym2tok = map_of (zip ([] # syms) [0 ..< Suc (length syms)]) \<rparr>"

definition emptyToken :: nat where
  "emptyToken = 0"

text \<open>
  Modelled from the spec: the nested maps of an evaluated state (\<^verbatim>\<open>eval.h\<close>). The two outer
  levels are \<^verbatim>\<open>std::map\<close>s keyed by input and output token; the innermost level maps a
  neighbour state to a \<^verbatim>\<open>Trans\<close> record and keeps every edge (ties between edges with the
  same source, labels and destination are told apart by \<^verbatim>\<open>transIndex\<close>), so it is a
  \<^verbatim>\<open>std::multimap\<close>. All three are association lists in ascending key order, which is
  the order a C++ iterator visits them in.
\<close>

record Trans =
  logWeight :: double
  transIndex :: nat

type_synonym StateTransMap = "(nat \<times> Trans) list"
type_synonym OutStateTransMap = "(nat \<times> StateTransMap) list"
type_synonym InOutStateTransMap = "(nat \<times> OutStateTransMap) list"

record EvaluatedMachineState =
  name :: json
  nTransitions :: nat
  transOffset :: nat
  incoming :: InOutStateTransMap
  outgoing :: InOutStateTransMap

record EvaluatedMachine =
  inputTokenizer :: Tokenizer
  outputTokenizer :: Tokenizer
  state :: "EvaluatedMachineState list"
  nTransitions :: nat

text \<open>
  \<^verbatim>\<open>multimap::insert\<close>: the new pair goes after the pairs whose key is not greater.
\<close>

fun multimap_insert :: "nat \<Rightarrow> 'v \<Rightarrow> (nat \<times> 'v) list \<Rightarrow> (nat \<times> 'v) list" where
  "multimap_insert k v [] = [(k, v)]"
| "multimap_insert k v ((a, b) # ps) =
     (if k < a then (k, v) # (a, b) # ps else (a, b) # multimap_insert k v ps)"

text \<open>
  \<^verbatim>\<open>m[k]\<close> followed by a change \<open>f\<close> of the value found there: \<^verbatim>\<open>map::operator[]\<close>
  inserts a default value (an empty map, here \<open>[]\<close>) when the key is absent.
\<close>

fun map_modify :: "nat \<Rightarrow> ('v list \<Rightarrow> 'v list) \<Rightarrow> (nat \<times> 'v list) list \<Rightarrow> (nat \<times> 'v list) list" where
  "map_modify k f [] = [(k, f [])]"
| "map_modify k f ((a, b) # ps) =
     (if k < a then (k, f []) # (a, b) # ps
      else if k = a then (a, f b) # ps
      else (a, b) # map_modify k f ps)"

text \<open>\<^verbatim>\<open>iost[in][out].insert (value_type (d, tr))\<close>\<close>

definition insert_trans :: "nat \<Rightarrow> nat \<Rightarrow> nat \<Rightarrow> Trans \<Rightarrow> InOutStateTransMap \<Rightarrow> InOutStateTransMap" where
  "insert_trans i out d tr iost = map_modify i (map_modify out (multimap_insert d tr)) iost"

subsection \<open>\<^verbatim>\<open>EvaluatedMachine::init\<close> and the two constructors\<close>

text \<open>
  \<^verbatim>\<open>WeightAlgebra::eval\<close> (\<^verbatim>\<open>weight.cpp\<close>, not among the sources) is the parameter \<open>ev\<close>:
  it returns the value of a weight expression under the parameter definitions, or fails.
  \<open>params\<close> is \<open>None\<close> for the null pointer and \<open>Some defs\<close> for \<^verbatim>\<open>params->defs\<close>.

  \<open>eval_logWeight\<close> is line 43 and \<open>insert_edge\<close> lines 44 and 45, where \<^verbatim>\<open>state[d]\<close>
  with \<open>d\<close> outside the vector has no defined result: the loop stops with an error there.
  \<open>init_trans\<close> is the inner loop of \<^verbatim>\<open>init\<close> (lines 39 to 47) over the transitions of
  state \<open>s\<close>: \<open>ti\<close> is the running \<^verbatim>\<open>transIndex\<close> and \<open>st\<close> the vector \<^verbatim>\<open>state\<close>.
\<close>

definition eval_logWeight ::
  "('w \<Rightarrow> 'p \<Rightarrow> error + double) \<Rightarrow> 'p option \<Rightarrow> 'w MachineTransition \<Rightarrow> error + double" where
  "eval_logWeight ev params t =
     (case params of
        None \<Rightarrow> Inr (Fin 0)
      | Some defs \<Rightarrow> (case ev (weight t) defs of Inl e \<Rightarrow> Inl e | Inr v \<Rightarrow> Inr (d_log v)))"

definition insert_edge ::
  "nat \<Rightarrow> nat \<Rightarrow> nat \<Rightarrow> nat \<Rightarrow> Trans \<Rightarrow> EvaluatedMachineState list \<Rightarrow> EvaluatedMachineState list" where
  "insert_edge s d i out tr st =
     (let st1 = st[s := (st ! s)\<lparr> outgoing := insert_trans i out d tr (outgoing (st ! s)) \<rparr>]
      in st1[d := (st1 ! d)\<lparr> incoming := insert_trans i out s tr (incoming (st1 ! d)) \<rparr>])"

fun init_trans ::
  "('w \<Rightarrow> 'p \<Rightarrow> error + double) \<Rightarrow> Tokenizer \<Rightarrow> Tokenizer \<Rightarrow> 'p option \<Rightarrow> nat \<Rightarrow>
   'w MachineTransition list \<Rightarrow> nat \<Rightarrow> EvaluatedMachineState list \<Rightarrow>
   error + (nat \<times> EvaluatedMachineState list)" where
  "init_trans ev it ot params s [] ti st = Inr (ti, st)"
| "init_trans ev it ot params s (t # ts) ti st =
     (let d = dest t in
      case sym2tok it (trans_in t) of
        None \<Rightarrow> Inl (MissingSymbol (trans_in t))
      | Some i \<Rightarrow>
      (case sym2tok ot (trans_out t) of
        None \<Rightarrow> Inl (MissingSymbol (trans_out t))
      | Some out \<Rightarrow>
      (case eval_logWeight ev params t of
        Inl e \<Rightarrow> Inl e
      | Inr lw \<Rightarrow>
          if \<not> d < length st then Inl (StateOutOfRange d)
          else init_trans ev it ot params s ts (Suc ti)
                 (insert_edge s d i out \<lparr> logWeight = lw, transIndex = ti \<rparr> st))))"

text \<open>The outer loop (lines 35 to 51) over the state indices; \<open>tiCum\<close> is the running total.\<close>

fun init_states ::
  "('w \<Rightarrow> 'p \<Rightarrow> error + double) \<Rightarrow> Tokenizer \<Rightarrow> Tokenizer \<Rightarrow> 'p option \<Rightarrow> 'w Machine \<Rightarrow>
   nat list \<Rightarrow> nat \<Rightarrow> EvaluatedMachineState list \<Rightarrow>
   error + (nat \<times> EvaluatedMachineState list)" where
  "init_states ev it ot params m [] tiCum st = Inr (tiCum, st)"
| "init_states ev it ot params m (s # ss) tiCum st =
     (if \<not> s < length (Machine.state m) then Inl (StateOutOfRange s)
      else
        (let st1 = st[s := (st ! s)\<lparr> EvaluatedMachineState.name := MachineState.name (Machine.state m ! s) \<rparr>]
         in case init_trans ev it ot params s (trans (Machine.state m ! s)) 0 st1 of
              Inl e \<Rightarrow> Inl e
            | Inr (ti, st2) \<Rightarrow>
                (let st3 = st2[s := (st2 ! s)\<lparr> EvaluatedMachineState.nTransitions := ti,
                                               transOffset := tiCum \<rparr>]
                 in init_states ev it ot params m ss (tiCum + ti) st3)))"

definition init ::
  "('w \<Rightarrow> 'p \<Rightarrow> error + double) \<Rightarrow> 'w Machine \<Rightarrow> 'p option \<Rightarrow> EvaluatedMachine \<Rightarrow>
   error + EvaluatedMachine" where
  "init ev m params em =
     (if \<not> isAdvancingMachine m then Inl NotAdvancing
      else
        (case init_states ev (inputTokenizer em) (outputTokenizer em) params m
                [0 ..< length (EvaluatedMachine.state em)] 0 (EvaluatedMachine.state em) of
           Inl e \<Rightarrow> Inl e
         | Inr (tiCum, st) \<Rightarrow>
             Inr (em\<lparr> EvaluatedMachine.state := st, EvaluatedMachine.nTransitions := tiCum \<rparr>)))"

text \<open>
  The member initialisers of both constructors: the two tokenizers built from the machine's
  alphabets and \<^verbatim>\<open>machine.nStates()\<close> value-initialised states.
\<close>

definition empty_state :: EvaluatedMachineState where
  "empty_state =
     \<lparr> EvaluatedMachineState.name = JNull, EvaluatedMachineState.nTransitions = 0,
       transOffset = 0, incoming = [], outgoing = [] \<rparr>"

definition unevaluated :: "'w Machine \<Rightarrow> EvaluatedMachine" where
  "unevaluated m =
     \<lparr> inputTokenizer = Tokenizer_new (inputAlphabet m),
       outputTokenizer = Tokenizer_new (outputAlphabet m),
       EvaluatedMachine.state = replicate (nStates m) empty_state,
       EvaluatedMachine.nTransitions = 0 \<rparr>"

text \<open>
  \<^verbatim>\<open>EvaluatedMachine (machine, params)\<close> is \<open>evaluate ev m (Some defs)\<close> and
  \<^verbatim>\<open>EvaluatedMachine (machine)\<close> is \<open>evaluate ev m None\<close>.
\<close>

definition evaluate ::
  "('w \<Rightarrow> 'p \<Rightarrow> error + double) \<Rightarrow> 'w Machine \<Rightarrow> 'p option \<Rightarrow> error + EvaluatedMachine" where
  "evaluate ev m params = init ev m params (unevaluated m)"

subsection \<open>\<^verbatim>\<open>EvaluatedMachine::sumInTrans\<close>\<close>

text \<open>
  A warning is the state and the exit sum that \<^verbatim>\<open>LogThisAt\<close> is given; the list of
  warnings is what the logger has received.
\<close>

type_synonym warning = "nat \<times> double"

text \<open>The innermost loop (lines 139 to 145), over the multimap found under the empty token.\<close>

fun null_loop ::
  "nat \<Rightarrow> StateTransMap \<Rightarrow> double list list \<Rightarrow> double list \<Rightarrow> warning list \<Rightarrow>
   error + (double list list \<times> double list \<times> warning list)" where
  "null_loop src [] M pExit lg = Inr (M, pExit, lg)"
| "null_loop src ((d, t) # rest) M pExit lg =
     (let p = d_exp (logWeight t)
      in if \<not> d < length (M ! src) then Inl (StateOutOfRange d)
         else
           (let M1 = M[src := (M ! src)[d := d_sub (M ! src ! d) p]];
                pExit1 = pExit[src := d_add (pExit ! src) p];
                lg1 = (if d_gt (pExit1 ! src) SuspiciouslyLargeProbabilityWarningThreshold
                       then lg @ [(src, pExit1 ! src)] else lg)
            in null_loop src rest M1 pExit1 lg1))"

text \<open>The loop over \<^verbatim>\<open>state[src].outgoing\<close> (lines 136 to 146).\<close>

fun in_loop ::
  "nat \<Rightarrow> InOutStateTransMap \<Rightarrow> double list list \<Rightarrow> double list \<Rightarrow> warning list \<Rightarrow>
   error + (double list list \<times> double list \<times> warning list)" where
  "in_loop src [] M pExit lg = Inr (M, pExit, lg)"
| "in_loop src ((i, ost) # rest) M pExit lg =
     (case map_of ost emptyToken of
        None \<Rightarrow> in_loop src rest M pExit lg
      | Some stm \<Rightarrow>
          (case null_loop src stm M pExit lg of
             Inl e \<Rightarrow> Inl e
           | Inr (M1, pExit1, lg1) \<Rightarrow> in_loop src rest M1 pExit1 lg1))"

text \<open>The loop over the source states (lines 134 to 147).\<close>

fun src_loop ::
  "EvaluatedMachineState list \<Rightarrow> nat list \<Rightarrow> double list list \<Rightarrow> double list \<Rightarrow> warning list \<Rightarrow>
   error + (double list list \<times> double list \<times> warning list)" where
  "src_loop st [] M pExit lg = Inr (M, pExit, lg)"
| "src_loop st (src # srcs) M pExit lg =
     (let M0 = M[src := (M ! src)[src := Fin 1]]
      in case in_loop src (outgoing (st ! src)) M0 pExit lg of
           Inl e \<Rightarrow> Inl e
         | Inr (M1, pExit1, lg1) \<Rightarrow> src_loop st srcs M1 pExit1 lg1)"

text \<open>Modelled from the spec: \<^verbatim>\<open>log_matrix\<close> (\<^verbatim>\<open>logsumexp.h\<close>) takes the logarithm of every entry.\<close>

definition log_matrix :: "double list list \<Rightarrow> double list list" where
  "log_matrix G = map (map d_log) G"

text \<open>
  Lines 149 to 161 hand the matrix to the GNU Scientific Library, which is no part of the
  repository: \<^verbatim>\<open>gsl_linalg_LU_decomp\<close> followed by \<^verbatim>\<open>gsl_linalg_LU_invert\<close> is the
  parameter \<open>lu\<close>. It returns the matrix left in \<^verbatim>\<open>gGeomSumNullTrans\<close>, or \<open>None\<close> when
  the library's error handler stops the program. \<^verbatim>\<open>sumInTrans\<close> discards the status
  both calls return. The result is the list of warnings logged and the matrix returned.
\<close>

definition sumInTrans ::
  "(double list list \<Rightarrow> double list list option) \<Rightarrow> EvaluatedMachine \<Rightarrow>
   warning list \<times> (error + double list list)" where
  "sumInTrans lu em =
     (let n = length (EvaluatedMachine.state em);
          oneMinusNullTrans = replicate n (replicate n (Fin 0));
          pExit = replicate n (Fin 0)
      in case src_loop (EvaluatedMachine.state em) [0 ..< n] oneMinusNullTrans pExit [] of
           Inl e \<Rightarrow> ([], Inl e)
         | Inr (M, pExit1, lg) \<Rightarrow>
             (lg, case lu M of None \<Rightarrow> Inl LibraryFailure | Some G \<Rightarrow> Inr (log_matrix G)))"

subsection \<open>\<^verbatim>\<open>EvaluatedMachine::explicitMachine\<close>\<close>

text \<open>
  The conversion of a \<^verbatim>\<open>double\<close> to a \<^verbatim>\<open>WeightExpr\<close> in the call of the
  \<^verbatim>\<open>MachineTransition\<close> constructor is the parameter \<open>lit\<close>. The three nested loops of
  lines 173 to 179 append to \<^verbatim>\<open>ms.trans\<close>.
\<close>

fun push_stm ::
  "(double \<Rightarrow> 'w) \<Rightarrow> Tokenizer \<Rightarrow> Tokenizer \<Rightarrow> nat \<Rightarrow> nat \<Rightarrow> StateTransMap \<Rightarrow>
   'w MachineTransition list \<Rightarrow> error + 'w MachineTransition list" where
  "push_stm lit it ot i out [] ts = Inr ts"
| "push_stm lit it ot i out ((d, t) # rest) ts =
     (if \<not> i < length (tok2sym it) then Inl (TokenOutOfRange i)
      else if \<not> out < length (tok2sym ot) then Inl (TokenOutOfRange out)
      else push_stm lit it ot i out rest
             (ts @ [\<lparr> trans_in = tok2sym it ! i, trans_out = tok2sym ot ! out, dest = d,
                      weight = lit (d_exp (logWeight t)) \<rparr>]))"

fun push_ostm ::
  "(double \<Rightarrow> 'w) \<Rightarrow> Tokenizer \<Rightarrow> Tokenizer \<Rightarrow> nat \<Rightarrow> OutStateTransMap \<Rightarrow>
   'w MachineTransition list \<Rightarrow> error + 'w MachineTransition list" where
  "push_ostm lit it ot i [] ts = Inr ts"
| "push_ostm lit it ot i ((out, stm) # rest) ts =
     (case push_stm lit it ot i out stm ts of
        Inl e \<Rightarrow> Inl e
      | Inr ts1 \<Rightarrow> push_ostm lit it ot i rest ts1)"

fun push_iostm ::
  "(double \<Rightarrow> 'w) \<Rightarrow> Tokenizer \<Rightarrow> Tokenizer \<Rightarrow> InOutStateTransMap \<Rightarrow>
   'w MachineTransition list \<Rightarrow> error + 'w MachineTransition list" where
  "push_iostm lit it ot [] ts = Inr ts"
| "push_iostm lit it ot ((i, ostm) # rest) ts =
     (case push_ostm lit it ot i ostm ts of
        Inl e \<Rightarrow> Inl e
      | Inr ts1 \<Rightarrow> push_iostm lit it ot rest ts1)"

text \<open>The loop over \<^verbatim>\<open>state\<close> (lines 170 to 180), filling the states of the new machine.\<close>

fun explicit_states ::
  "(double \<Rightarrow> 'w) \<Rightarrow> Tokenizer \<Rightarrow> Tokenizer \<Rightarrow> EvaluatedMachineState list \<Rightarrow>
   error + 'w MachineState list" where
  "explicit_states lit it ot [] = Inr []"
| "explicit_states lit it ot (ems # rest) =
     (case push_iostm lit it ot (outgoing ems) [] of
        Inl e \<Rightarrow> Inl e
      | Inr ts \<Rightarrow>
          (case explicit_states lit it ot rest of
             Inl e \<Rightarrow> Inl e
           | Inr mss \<Rightarrow>
               Inr (\<lparr> MachineState.name = EvaluatedMachineState.name ems, trans = ts \<rparr> # mss)))"

definition explicitMachine :: "(double \<Rightarrow> 'w) \<Rightarrow> EvaluatedMachine \<Rightarrow> error + 'w Machine" where
  "explicitMachine lit em =
     (case explicit_states lit (inputTokenizer em) (outputTokenizer em) (EvaluatedMachine.state em) of
        Inl e \<Rightarrow> Inl e
      | Inr mss \<Rightarrow> Inr \<lparr> Machine.state = mss \<rparr>)"

subsection \<open>\<^verbatim>\<open>Params::readJson\<close> (\<^verbatim>\<open>params.cpp\<close>)\<close>

record Params =
  param :: "string \<rightharpoonup> double"

text \<open>
  Modelled from the spec: \<^verbatim>\<open>MachineSchema::validateOrDie ("params", pj)\<close> (\<^verbatim>\<open>schema.cpp\<close>,
  not among the sources) accepts an object whose values are numbers and stops the program
  on anything else.
\<close>

fun is_number :: "json \<Rightarrow> bool" where
  "is_number (JNumber _) = True"
| "is_number _ = False"

fun validate_params :: "json \<Rightarrow> bool" where
  "validate_params (JObject kvs) = list_all (\<lambda>kv. is_number (snd kv)) kvs"
| "validate_params _ = False"

text \<open>\<^verbatim>\<open>iter.value().get<double>()\<close> throws on a value that is not a number.\<close>

fun get_double :: "json \<Rightarrow> error + double" where
  "get_double (JNumber r) = Inr (Fin r)"
| "get_double _ = Inl TypeError"

text \<open>
  The loop of lines 15 and 16 over the members of an object. An exception leaves the map
  as it is at that moment, so the map is returned with the error.
\<close>

fun read_members :: "(string \<times> json) list \<Rightarrow> (string \<rightharpoonup> double) \<Rightarrow> error option \<times> (string \<rightharpoonup> double)" where
  "read_members [] pm = (None, pm)"
| "read_members ((k, v) # rest) pm =
     (case get_double v of
        Inl e \<Rightarrow> (Some e, pm)
      | Inr x \<Rightarrow> read_members rest (pm(k \<mapsto> x)))"

text \<open>
  The iteration \<^verbatim>\<open>pj.begin()\<close> to \<^verbatim>\<open>pj.end()\<close> visits the members of an object; on
  \<^verbatim>\<open>null\<close> and on an empty array it visits nothing, and on any other value
  \<^verbatim>\<open>iter.key()\<close> throws.
\<close>

fun read_json_loop :: "json \<Rightarrow> (string \<rightharpoonup> double) \<Rightarrow> error option \<times> (string \<rightharpoonup> double)" where
  "read_json_loop (JObject kvs) pm = read_members kvs pm"
| "read_json_loop JNull pm = (None, pm)"
| "read_json_loop (JArray []) pm = (None, pm)"
| "read_json_loop _ pm = (Some TypeError, pm)"

text \<open>
  \<^verbatim>\<open>Params::readJson (const json&)\<close>: the error that stopped the call, if any, and the
  object as the call leaves it.
\<close>

definition readJson :: "json \<Rightarrow> Params \<Rightarrow> error option \<times> Params" where
  "readJson pj p =
     (if \<not> validate_params pj then (Some SchemaViolation, p)
      else
        (let p1 = p\<lparr> param := Map.empty \<rparr>
         in case read_json_loop pj (param p1) of
              (err, pm) \<Rightarrow> (err, p1\<lparr> param := pm \<rparr>)))"

subsection \<open>Notions the properties are stated with\<close>

text \<open>
  The edges of a nested map in the order an iteration over all three levels visits them:
  input token, output token, neighbour state and \<^verbatim>\<open>Trans\<close> record.
\<close>

definition edges_out :: "nat \<Rightarrow> OutStateTransMap \<Rightarrow> (nat \<times> nat \<times> nat \<times> Trans) list" where
  "edges_out i ostm = concat (map (\<lambda>(out, stm). map (\<lambda>(d, t). (i, out, d, t)) stm) ostm)"

definition edges :: "InOutStateTransMap \<Rightarrow> (nat \<times> nat \<times> nat \<times> Trans) list" where
  "edges iostm = concat (map (\<lambda>(i, ostm). edges_out i ostm) iostm)"

text \<open>
  The edge that \<^verbatim>\<open>init\<close> stores for the transition \<open>t\<close> when it is the \<open>k\<close>-th of its
  state: the tokens of its labels, its destination, its log weight and \<open>k\<close>; \<open>None\<close>
  where a token lookup or the weight evaluation fails.
\<close>

definition stored_edge ::
  "('w \<Rightarrow> 'p \<Rightarrow> error + double) \<Rightarrow> Tokenizer \<Rightarrow> Tokenizer \<Rightarrow> 'p option \<Rightarrow>
   nat \<times> 'w MachineTransition \<Rightarrow> (nat \<times> nat \<times> nat \<times> Trans) option" where
  "stored_edge ev it ot params kt =
     (case sym2tok it (trans_in (snd kt)) of
        None \<Rightarrow> None
      | Some i \<Rightarrow>
      (case sym2tok ot (trans_out (snd kt)) of
        None \<Rightarrow> None
      | Some out \<Rightarrow>
      (case eval_logWeight ev params (snd kt) of
        Inl e \<Rightarrow> None
      | Inr lw \<Rightarrow> Some (i, out, dest (snd kt), \<lparr> logWeight = lw, transIndex = fst kt \<rparr>))))"

text \<open>A tokenizer whose vector gives back the symbol of every token its map hands out.\<close>

definition wf_tokenizer :: "Tokenizer \<Rightarrow> bool" where
  "wf_tokenizer T \<longleftrightarrow>
     (\<forall>x k. sym2tok T x = Some k \<longrightarrow> k < length (tok2sym T) \<and> tok2sym T ! k = x)"

text \<open>
  The transition \<^verbatim>\<open>explicitMachine\<close> makes of a stored edge, and the key an iteration over
  the nested maps is ordered by: input token, output token, neighbour state (compared
  lexicographically).
\<close>

definition edge_transition ::
  "(double \<Rightarrow> 'w) \<Rightarrow> Tokenizer \<Rightarrow> Tokenizer \<Rightarrow> nat \<times> nat \<times> nat \<times> Trans \<Rightarrow> 'w MachineTransition" where
  "edge_transition lit it ot e =
     (case e of (i, out, d, t) \<Rightarrow>
        \<lparr> trans_in = tok2sym it ! i, trans_out = tok2sym ot ! out, dest = d,
          weight = lit (d_exp (logWeight t)) \<rparr>)"

definition edge_key :: "nat \<times> nat \<times> nat \<times> Trans \<Rightarrow> nat \<times> nat \<times> nat" where
  "edge_key e = (case e of (i, out, d, t) \<Rightarrow> (i, out, d))"

text \<open>The output-empty edges leaving a state: neighbour state and \<^verbatim>\<open>Trans\<close> record.\<close>

definition null_edges :: "EvaluatedMachineState \<Rightarrow> (nat \<times> Trans) list" where
  "null_edges ems =
     map (\<lambda>(i, out, d, t). (d, t)) (filter (\<lambda>(i, out, d, t). out = emptyToken) (edges (outgoing ems)))"

text \<open>
  The pairs the two inner loops of \<^verbatim>\<open>sumInTrans\<close> visit, in turn, for one state: for every
  input token, the multimap found under the empty output token.
\<close>

definition visited_edges :: "InOutStateTransMap \<Rightarrow> (nat \<times> Trans) list" where
  "visited_edges iostm =
     concat (map (\<lambda>(i, ost). case map_of ost emptyToken of None \<Rightarrow> [] | Some stm \<Rightarrow> stm) iostm)"

text \<open>
  The warnings logged for state \<open>src\<close> while the weights of the edges \<open>es\<close> are added to the
  exit sum \<open>acc\<close>: one for every partial sum above the threshold.
\<close>

fun exit_warnings :: "nat \<Rightarrow> double \<Rightarrow> (nat \<times> Trans) list \<Rightarrow> warning list" where
  "exit_warnings src acc [] = []"
| "exit_warnings src acc (e # es) =
     (let acc1 = d_add acc (d_exp (logWeight (snd e)))
      in (if d_gt acc1 SuspiciouslyLargeProbabilityWarningThreshold then [(src, acc1)] else []) @
         exit_warnings src acc1 es)"

text \<open>The sum of a list of doubles, added from the left as the loops do.\<close>

definition d_sum :: "double list \<Rightarrow> double" where
  "d_sum xs = foldl d_add (Fin 0) xs"

text \<open>The summed \<^verbatim>\<open>exp (logWeight)\<close> of the output-empty edges from state \<open>s\<close> to state \<open>d\<close>.\<close>

definition null_weight :: "EvaluatedMachine \<Rightarrow> nat \<Rightarrow> nat \<Rightarrow> double" where
  "null_weight em s d =
     d_sum (map (\<lambda>e. d_exp (logWeight (snd e)))
              (filter (\<lambda>e. fst e = d) (null_edges (EvaluatedMachine.state em ! s))))"

text \<open>The summed \<^verbatim>\<open>exp (logWeight)\<close> of all output-empty edges leaving state \<open>s\<close>.\<close>

definition exit_weight :: "EvaluatedMachine \<Rightarrow> nat \<Rightarrow> double" where
  "exit_weight em s =
     d_sum (map (\<lambda>e. d_exp (logWeight (snd e))) (null_edges (EvaluatedMachine.state em ! s)))"

text \<open>The matrix \<open>M\<close> of the spec: the identity minus the output-empty weights.\<close>

definition identity_minus_null :: "EvaluatedMachine \<Rightarrow> double list list" where
  "identity_minus_null em =
     (let n = length (EvaluatedMachine.state em)
      in map (\<lambda>s. map (\<lambda>d. d_sub (Fin (if s = d then 1 else 0)) (null_weight em s d)) [0 ..< n])
           [0 ..< n])"

text \<open>
  The closure computed from \<open>M\<close> with no diagnostic at all: what \<^verbatim>\<open>sumInTrans\<close> is to
  return whatever is logged.
\<close>

definition closure_of :: "(double list list \<Rightarrow> double list list option) \<Rightarrow> EvaluatedMachine \<Rightarrow> error + double list list" where
  "closure_of lu em =
     (case lu (identity_minus_null em) of
        None \<Rightarrow> Inl LibraryFailure
      | Some G \<Rightarrow> Inr (log_matrix G))"

text \<open>
  An evaluated machine is well formed when, in every state, each of the two map levels of
  \<^verbatim>\<open>outgoing\<close> holds a key once, no map or multimap is empty, the neighbour states lie
  inside the state vector and the tokens inside the tokenizers' vectors.
\<close>

definition wf_ostm :: "nat \<Rightarrow> nat \<Rightarrow> OutStateTransMap \<Rightarrow> bool" where
  "wf_ostm n no ostm \<longleftrightarrow>
     sorted_wrt (<) (map fst ostm) \<and>
     list_all (\<lambda>(out, stm). out < no \<and> stm \<noteq> [] \<and> sorted (map fst stm) \<and> list_all (\<lambda>(d, t). d < n) stm) ostm"

definition wf_iostm :: "nat \<Rightarrow> nat \<Rightarrow> nat \<Rightarrow> InOutStateTransMap \<Rightarrow> bool" where
  "wf_iostm n ni no iostm \<longleftrightarrow>
     sorted_wrt (<) (map fst iostm) \<and>
     list_all (\<lambda>(i, ostm). i < ni \<and> ostm \<noteq> [] \<and> wf_ostm n no ostm) iostm"

definition wf_em :: "EvaluatedMachine \<Rightarrow> bool" where
  "wf_em em \<longleftrightarrow>
     list_all (\<lambda>ems. wf_iostm (length (EvaluatedMachine.state em))
                       (length (tok2sym (inputTokenizer em)))
                       (length (tok2sym (outputTokenizer em))) (outgoing ems))
       (EvaluatedMachine.state em)"

subsection \<open>Real matrices and path weights\<close>

text \<open>
  Square real matrices of dimension \<open>n\<close> are functions of two indices below \<open>n\<close>.
\<close>

definition kron :: "nat \<Rightarrow> nat \<Rightarrow> real" where
  "kron i j = (if i = j then 1 else 0)"

definition mat_mul :: "nat \<Rightarrow> (nat \<Rightarrow> nat \<Rightarrow> real) \<Rightarrow> (nat \<Rightarrow> nat \<Rightarrow> real) \<Rightarrow> nat \<Rightarrow> nat \<Rightarrow> real" where
  "mat_mul n A B i j = (\<Sum>k<n. A i k * B k j)"

definition is_inverse :: "nat \<Rightarrow> (nat \<Rightarrow> nat \<Rightarrow> real) \<Rightarrow> (nat \<Rightarrow> nat \<Rightarrow> real) \<Rightarrow> bool" where
  "is_inverse n A B \<longleftrightarrow>
     (\<forall>i<n. \<forall>j<n. mat_mul n A B i j = kron i j \<and> mat_mul n B A i j = kron i j)"

definition entry :: "real list list \<Rightarrow> nat \<Rightarrow> nat \<Rightarrow> real" where
  "entry rows i j = rows ! i ! j"

definition fin_matrix :: "real list list \<Rightarrow> double list list" where
  "fin_matrix rows = map (map Fin) rows"

text \<open>The value of a finite double; the weights of a machine with finite weights are read with it.\<close>

fun real_of :: "double \<Rightarrow> real" where
  "real_of (Fin a) = a"
| "real_of _ = 0"

fun is_fin :: "double \<Rightarrow> bool" where
  "is_fin (Fin _) = True"
| "is_fin _ = False"

text \<open>Every output-empty edge of the machine has a finite weight \<^verbatim>\<open>exp (logWeight)\<close>.\<close>

definition finite_null_weights :: "EvaluatedMachine \<Rightarrow> bool" where
  "finite_null_weights em \<longleftrightarrow>
     list_all (\<lambda>ems. list_all (\<lambda>e. is_fin (d_exp (logWeight (snd e)))) (null_edges ems))
       (EvaluatedMachine.state em)"

text \<open>The real matrix \<open>N\<close> of output-empty weights and \<open>M = I - N\<close>.\<close>

definition null_matrix :: "EvaluatedMachine \<Rightarrow> nat \<Rightarrow> nat \<Rightarrow> real" where
  "null_matrix em s d = real_of (null_weight em s d)"

definition one_minus_null :: "EvaluatedMachine \<Rightarrow> nat \<Rightarrow> nat \<Rightarrow> real" where
  "one_minus_null em s d = kron s d - null_matrix em s d"

text \<open>
  The total weight of the output-empty paths of \<open>k\<close> edges from \<open>s\<close> to \<open>d\<close>: a path of no
  edge has weight 1 and stays where it is; a longer path is a first edge followed by a
  path one edge shorter, and its weight is the product of the weights of its edges.
\<close>

fun path_weight :: "EvaluatedMachine \<Rightarrow> nat \<Rightarrow> nat \<Rightarrow> nat \<Rightarrow> real" where
  "path_weight em 0 s d = kron s d"
| "path_weight em (Suc k) s d =
     sum_list (map (\<lambda>e. real_of (d_exp (logWeight (snd e))) * path_weight em k (fst e) d)
                 (null_edges (EvaluatedMachine.state em ! s)))"

subsection \<open>Example machines\<close>

text \<open>
  In the examples a weight expression is a literal, the real number itself, and there are
  no parameters to look up.
\<close>

definition ev_literal :: "real \<Rightarrow> unit \<Rightarrow> error + double" where
  "ev_literal w defs = Inr (Fin w)"

definition lit_real :: "double \<Rightarrow> real" where
  "lit_real x = real_of x"

text \<open>
  Two states; the first has two transitions that emit \<^verbatim>\<open>a\<close>, to the second state and
  then to itself.
\<close>

definition machine_two :: "real Machine" where
  "machine_two =
     \<lparr> Machine.state =
         [ \<lparr> MachineState.name = JString ''first'',
             trans = [ \<lparr> trans_in = [], trans_out = ''a'', dest = 1, weight = 1 / 2 \<rparr>,
                       \<lparr> trans_in = [], trans_out = ''a'', dest = 0, weight = 1 / 4 \<rparr> ] \<rparr>,
           \<lparr> MachineState.name = JString ''second'', trans = [] \<rparr> ] \<rparr>"

text \<open>Two states and a silent transition from the second back to the first.\<close>

definition machine_back :: "real Machine" where
  "machine_back =
     \<lparr> Machine.state =
         [ \<lparr> MachineState.name = JNull, trans = [] \<rparr>,
           \<lparr> MachineState.name = JNull,
             trans = [ \<lparr> trans_in = [], trans_out = [], dest = 0, weight = 1 \<rparr> ] \<rparr> ] \<rparr>"

text \<open>
  Two states joined by output-empty transitions that consume \<^verbatim>\<open>a\<close>: the first loops on
  itself and steps to the second. No transition is silent.
\<close>

definition machine_loop :: "real Machine" where
  "machine_loop =
     \<lparr> Machine.state =
         [ \<lparr> MachineState.name = JNull,
             trans = [ \<lparr> trans_in = ''a'', trans_out = [], dest = 0, weight = 1 \<rparr>,
                       \<lparr> trans_in = ''a'', trans_out = [], dest = 1, weight = 1 \<rparr> ] \<rparr>,
           \<lparr> MachineState.name = JNull, trans = [] \<rparr> ] \<rparr>"

text \<open>
  Two states and two output-empty transitions from the first to the second, consuming
  \<^verbatim>\<open>a\<close> and \<^verbatim>\<open>b\<close>.
\<close>

definition machine_fork :: "real Machine" where
  "machine_fork =
     \<lparr> Machine.state =
         [ \<lparr> MachineState.name = JNull,
             trans = [ \<lparr> trans_in = ''a'', trans_out = [], dest = 1, weight = 1 \<rparr>,
                       \<lparr> trans_in = ''b'', trans_out = [], dest = 1, weight = 1 \<rparr> ] \<rparr>,
           \<lparr> MachineState.name = JNull, trans = [] \<rparr> ] \<rparr>"

text \<open>One state with an output-empty loop of weight one half, and the same with weight 2.\<close>

definition machine_half :: "real Machine" where
  "machine_half =
     \<lparr> Machine.state =
         [ \<lparr> MachineState.name = JNull,
             trans = [ \<lparr> trans_in = ''a'', trans_out = [], dest = 0, weight = 1 / 2 \<rparr> ] \<rparr> ] \<rparr>"

definition machine_double :: "real Machine" where
  "machine_double =
     \<lparr> Machine.state =
         [ \<lparr> MachineState.name = JNull,
             trans = [ \<lparr> trans_in = ''a'', trans_out = [], dest = 0, weight = 2 \<rparr> ] \<rparr> ] \<rparr>"

text \<open>
  Two states that step to each other on \<^verbatim>\<open>a\<close> without output; the second also loops on
  itself on \<^verbatim>\<open>a\<close> and on \<^verbatim>\<open>b\<close>. No transition is silent, so the machine is advancing.
\<close>

definition machine_cycle :: "real Machine" where
  "machine_cycle =
     \<lparr> Machine.state =
         [ \<lparr> MachineState.name = JNull,
             trans = [ \<lparr> trans_in = ''a'', trans_out = [], dest = 1, weight = 1 \<rparr> ] \<rparr>,
           \<lparr> MachineState.name = JNull,
             trans = [ \<lparr> trans_in = ''a'', trans_out = [], dest = 0, weight = 1 \<rparr>,
                       \<lparr> trans_in = ''a'', trans_out = [], dest = 1, weight = 1 \<rparr>,
                       \<lparr> trans_in = ''b'', trans_out = [], dest = 1, weight = 1 \<rparr> ] \<rparr> ] \<rparr>"

section \<open>Properties\<close>

subsection \<open>State indices of the base-calling machine\<close>

lemma int_mul_Some:
  "int_fits (sint a * sint b) \<Longrightarrow> \<exists>p. int_mul a b = Some p \<and> sint p = sint a * sint b"
  by (simp add: int_mul_def int_fits_def sint_word_mult signed_take_bit_int_eq_self)

lemma int_add_Some:
  "int_fits (sint a + sint b) \<Longrightarrow> \<exists>p. int_add a b = Some p \<and> sint p = sint a + sint b"
  by (simp add: int_add_def int_fits_def sint_word_add signed_take_bit_int_eq_self)

lemma index_of_sum:
  fixes q :: c_int and kmer :: Kmer
  assumes "0 \<le> sint q + uint kmer" "sint q + uint kmer < 2 ^ 64"
  shows "uint (scast q + kmer :: StateIndex) = sint q + uint kmer"
proof -
  have "(word_of_int (sint q + uint kmer) :: StateIndex) = word_of_int (sint q) + word_of_int (uint kmer)"
    by (simp only: wi_hom_add)
  also have "\<dots> = scast q + kmer"
    by (simp only: scast_eq word_of_int_uint)
  finally have "scast q + kmer = (word_of_int (sint q + uint kmer) :: StateIndex)"
    by (rule sym)
  then have "uint (scast q + kmer :: StateIndex) = (sint q + uint kmer) mod 2 ^ LENGTH(64)"
    by (simp only: uint_word_of_int)
  also have "\<dots> = sint q + uint kmer"
    using assms by (simp add: mod_pos_pos_trivial)
  finally show ?thesis .
qed

lemma kmerEmit_exact:
  assumes "int_fits (sint component * sint (nKmers m))"
    and "int_fits (1 + sint component * sint (nKmers m))"
    and "0 \<le> emit_formula m kmer component" "emit_formula m kmer component < 2 ^ 64"
  shows "\<exists>w. kmerEmit m kmer component = Some w \<and> uint w = emit_formula m kmer component"
proof -
  obtain p where p: "int_mul component (nKmers m) = Some p" "sint p = sint component * sint (nKmers m)"
    using int_mul_Some [OF assms(1)] by blast
  have "int_fits (sint (1 :: c_int) + sint p)" using assms(2) p(2) by simp
  then obtain q where q: "int_add 1 p = Some q" "sint q = sint (1 :: c_int) + sint p"
    using int_add_Some by blast
  have sq: "sint q = 1 + sint component * sint (nKmers m)" using q(2) p(2) by simp
  have "uint (scast q + kmer :: StateIndex) = sint q + uint kmer"
    using assms(3,4) by (intro index_of_sum) (simp_all add: emit_formula_def sq)
  then show ?thesis
    by (simp add: kmerEmit_def p(1) q(1) emit_formula_def sq)
qed

lemma kmerEnd_exact:
  assumes "int_fits (sint (components m) * sint (nKmers m))"
    and "int_fits (1 + sint (components m) * sint (nKmers m))"
    and "0 \<le> end_formula m kmer" "end_formula m kmer < 2 ^ 64"
  shows "\<exists>w. kmerEnd m kmer = Some w \<and> uint w = end_formula m kmer"
proof -
  obtain p where p: "int_mul (components m) (nKmers m) = Some p" "sint p = sint (components m) * sint (nKmers m)"
    using int_mul_Some [OF assms(1)] by blast
  have "int_fits (sint (1 :: c_int) + sint p)" using assms(2) p(2) by simp
  then obtain q where q: "int_add 1 p = Some q" "sint q = sint (1 :: c_int) + sint p"
    using int_add_Some by blast
  have sq: "sint q = 1 + sint (components m) * sint (nKmers m)" using q(2) p(2) by simp
  have "uint (scast q + kmer :: StateIndex) = sint q + uint kmer"
    using assms(3,4) by (intro index_of_sum) (simp_all add: end_formula_def sq)
  then show ?thesis
    by (simp add: kmerEnd_def p(1) q(1) end_formula_def sq)
qed

lemma kmerStart_exact:
  assumes "int_fits (sint (components m) + 1)"
    and "int_fits ((sint (components m) + 1) * sint (nKmers m))"
    and "int_fits (1 + (sint (components m) + 1) * sint (nKmers m))"
    and "0 \<le> start_formula m kmer" "start_formula m kmer < 2 ^ 64"
  shows "\<exists>w. kmerStart m kmer = Some w \<and> uint w = start_formula m kmer"
proof -
  have "int_fits (sint (components m) + sint (1 :: c_int))" using assms(1) by simp
  then obtain c where c: "int_add (components m) 1 = Some c" "sint c = sint (components m) + sint (1 :: c_int)"
    using int_add_Some by blast
  have sc: "sint c = sint (components m) + 1" using c(2) by simp
  have "int_fits (sint c * sint (nKmers m))" using assms(2) sc by simp
  then obtain p where p: "int_mul c (nKmers m) = Some p" "sint p = sint c * sint (nKmers m)"
    using int_mul_Some by blast
  have "int_fits (sint (1 :: c_int) + sint p)" using assms(3) p(2) sc by simp
  then obtain q where q: "int_add 1 p = Some q" "sint q = sint (1 :: c_int) + sint p"
    using int_add_Some by blast
  have sq: "sint q = 1 + (sint (components m) + 1) * sint (nKmers m)" using q(2) p(2) sc by simp
  have "uint (scast q + kmer :: StateIndex) = sint q + uint kmer"
    using assms(4,5) by (intro index_of_sum) (simp_all add: start_formula_def sq)
  then show ?thesis
    by (simp add: kmerStart_def c(1) p(1) q(1) start_formula_def sq)
qed

text \<open>
  C9, as the spec states it, for every machine and every argument: each index function
  returns the integer its formula denotes. It fails where the C++ arithmetic leaves the
  integers. With \<open>nKmers = 4\<close>, \<^verbatim>\<open>kmerEmit (0, -1)\<close> computes the \<^verbatim>\<open>int\<close> \<open>-3\<close>, which the
  conversion to \<^verbatim>\<open>unsigned long long\<close> turns into \<open>2^64 - 3\<close>.
\<close>

theorem kmerEmit_wraps_counterexample:
  "kmerEmit \<lparr> components = 3, nKmers = 4 \<rparr> 0 (- 1) = Some (- 3) \<and>
   uint (- 3 :: StateIndex) = 2 ^ 64 - 3 \<and>
   emit_formula \<lparr> components = 3, nKmers = 4 \<rparr> 0 (- 1) = - 3"
  by (simp add: kmerEmit_def int_mul_def int_add_def int_fits_def emit_formula_def)

lemma index_of_sum_mod:
  fixes q :: c_int and kmer :: Kmer
  shows "uint (scast q + kmer :: StateIndex) = (sint q + uint kmer) mod 2 ^ 64"
proof -
  have "(word_of_int (sint q + uint kmer) :: StateIndex) = word_of_int (sint q) + word_of_int (uint kmer)"
    by (simp only: wi_hom_add)
  also have "\<dots> = scast q + kmer"
    by (simp only: scast_eq word_of_int_uint)
  finally have "scast q + kmer = (word_of_int (sint q + uint kmer) :: StateIndex)"
    by (rule sym)
  then have "uint (scast q + kmer :: StateIndex) = (sint q + uint kmer) mod 2 ^ LENGTH(64)"
    by (simp only: uint_word_of_int)
  then show ?thesis by simp
qed

lemma kmerEmit_modulo:
  assumes "emit_no_overflow m component"
  shows "\<exists>w. kmerEmit m kmer component = Some w \<and> uint w = emit_formula m kmer component mod 2 ^ 64"
proof -
  from assms have a: "int_fits (sint component * sint (nKmers m))"
    "int_fits (1 + sint component * sint (nKmers m))"
    by (simp_all add: emit_no_overflow_def)
  obtain p where p: "int_mul component (nKmers m) = Some p" "sint p = sint component * sint (nKmers m)"
    using int_mul_Some [OF a(1)] by blast
  have "int_fits (sint (1 :: c_int) + sint p)" using a(2) p(2) by simp
  then obtain q where q: "int_add 1 p = Some q" "sint q = sint (1 :: c_int) + sint p"
    using int_add_Some by blast
  have sq: "sint q = 1 + sint component * sint (nKmers m)" using q(2) p(2) by simp
  have "uint (scast q + kmer :: StateIndex) = (sint q + uint kmer) mod 2 ^ 64"
    by (rule index_of_sum_mod)
  then show ?thesis
    by (simp add: kmerEmit_def p(1) q(1) emit_formula_def sq)
qed

lemma kmerEnd_modulo:
  assumes "end_no_overflow m"
  shows "\<exists>w. kmerEnd m kmer = Some w \<and> uint w = end_formula m kmer mod 2 ^ 64"
proof -
  from assms have a: "int_fits (sint (components m) * sint (nKmers m))"
    "int_fits (1 + sint (components m) * sint (nKmers m))"
    by (simp_all add: end_no_overflow_def)
  obtain p where p: "int_mul (components m) (nKmers m) = Some p" "sint p = sint (components m) * sint (nKmers m)"
    using int_mul_Some [OF a(1)] by blast
  have "int_fits (sint (1 :: c_int) + sint p)" using a(2) p(2) by simp
  then obtain q where q: "int_add 1 p = Some q" "sint q = sint (1 :: c_int) + sint p"
    using int_add_Some by blast
  have sq: "sint q = 1 + sint (components m) * sint (nKmers m)" using q(2) p(2) by simp
  have "uint (scast q + kmer :: StateIndex) = (sint q + uint kmer) mod 2 ^ 64"
    by (rule index_of_sum_mod)
  then show ?thesis
    by (simp add: kmerEnd_def p(1) q(1) end_formula_def sq)
qed

lemma kmerStart_modulo:
  assumes "start_no_overflow m"
  shows "\<exists>w. kmerStart m kmer = Some w \<and> uint w = start_formula m kmer mod 2 ^ 64"
proof -
  from assms have a: "int_fits (sint (components m) + 1)"
    "int_fits ((sint (components m) + 1) * sint (nKmers m))"
    "int_fits (1 + (sint (components m) + 1) * sint (nKmers m))"
    by (simp_all add: start_no_overflow_def)
  have "int_fits (sint (components m) + sint (1 :: c_int))" using a(1) by simp
  then obtain c where c: "int_add (components m) 1 = Some c" "sint c = sint (components m) + sint (1 :: c_int)"
    using int_add_Some by blast
  have sc: "sint c = sint (components m) + 1" using c(2) by simp
  have "int_fits (sint c * sint (nKmers m))" using a(2) sc by simp
  then obtain p where p: "int_mul c (nKmers m) = Some p" "sint p = sint c * sint (nKmers m)"
    using int_mul_Some by blast
  have "int_fits (sint (1 :: c_int) + sint p)" using a(3) p(2) sc by simp
  then obtain q where q: "int_add 1 p = Some q" "sint q = sint (1 :: c_int) + sint p"
    using int_add_Some by blast
  have sq: "sint q = 1 + (sint (components m) + 1) * sint (nKmers m)" using q(2) p(2) sc by simp
  have "uint (scast q + kmer :: StateIndex) = (sint q + uint kmer) mod 2 ^ 64"
    by (rule index_of_sum_mod)
  then show ?thesis
    by (simp add: kmerStart_def c(1) p(1) q(1) start_formula_def sq)
qed

text \<open>
  C9, amended: whenever no \<^verbatim>\<open>int\<close> operation overflows, \<^verbatim>\<open>kmerEmit\<close>, \<^verbatim>\<open>kmerEnd\<close> and
  \<^verbatim>\<open>kmerStart\<close> return \<open>1 + component * nKmers + kmer\<close>, \<open>1 + components * nKmers + kmer\<close>
  and \<open>1 + (components + 1) * nKmers + kmer\<close> modulo \<open>2^64\<close>: the \<^verbatim>\<open>int\<close> part is converted
  to the unsigned type and the sum wraps. They return exactly the value of the formula
  when that value lies in \<open>0 ..< 2^64\<close>.
\<close>

theorem state_index_formulas:
  "(emit_no_overflow m component \<longrightarrow>
      (\<exists>w. kmerEmit m kmer component = Some w \<and>
           uint w = emit_formula m kmer component mod 2 ^ 64 \<and>
           (0 \<le> emit_formula m kmer component \<and> emit_formula m kmer component < 2 ^ 64 \<longrightarrow>
              uint w = emit_formula m kmer component))) \<and>
   (end_no_overflow m \<longrightarrow>
      (\<exists>w. kmerEnd m kmer = Some w \<and>
           uint w = end_formula m kmer mod 2 ^ 64 \<and>
           (0 \<le> end_formula m kmer \<and> end_formula m kmer < 2 ^ 64 \<longrightarrow>
              uint w = end_formula m kmer))) \<and>
   (start_no_overflow m \<longrightarrow>
      (\<exists>w. kmerStart m kmer = Some w \<and>
           uint w = start_formula m kmer mod 2 ^ 64 \<and>
           (0 \<le> start_formula m kmer \<and> start_formula m kmer < 2 ^ 64 \<longrightarrow>
              uint w = start_formula m kmer))) \<and>
   (emit_in_range m kmer component \<longrightarrow>
      (\<exists>w. kmerEmit m kmer component = Some w \<and> uint w = emit_formula m kmer component)) \<and>
   (end_in_range m kmer \<longrightarrow>
      (\<exists>w. kmerEnd m kmer = Some w \<and> uint w = end_formula m kmer)) \<and>
   (start_in_range m kmer \<longrightarrow>
      (\<exists>w. kmerStart m kmer = Some w \<and> uint w = start_formula m kmer))"
proof (intro conjI impI)
  assume "emit_no_overflow m component"
  from kmerEmit_modulo [OF this, of kmer]
  show "\<exists>w. kmerEmit m kmer component = Some w \<and>
           uint w = emit_formula m kmer component mod 2 ^ 64 \<and>
           (0 \<le> emit_formula m kmer component \<and> emit_formula m kmer component < 2 ^ 64 \<longrightarrow>
              uint w = emit_formula m kmer component)"
    by (auto simp: mod_pos_pos_trivial)
next
  assume "end_no_overflow m"
  from kmerEnd_modulo [OF this, of kmer]
  show "\<exists>w. kmerEnd m kmer = Some w \<and>
           uint w = end_formula m kmer mod 2 ^ 64 \<and>
           (0 \<le> end_formula m kmer \<and> end_formula m kmer < 2 ^ 64 \<longrightarrow>
              uint w = end_formula m kmer)"
    by (auto simp: mod_pos_pos_trivial)
next
  assume "start_no_overflow m"
  from kmerStart_modulo [OF this, of kmer]
  show "\<exists>w. kmerStart m kmer = Some w \<and>
           uint w = start_formula m kmer mod 2 ^ 64 \<and>
           (0 \<le> start_formula m kmer \<and> start_formula m kmer < 2 ^ 64 \<longrightarrow>
              uint w = start_formula m kmer)"
    by (auto simp: mod_pos_pos_trivial)
next
  assume "emit_in_range m kmer component"
  then show "\<exists>w. kmerEmit m kmer component = Some w \<and> uint w = emit_formula m kmer component"
    using kmerEmit_exact [of component m kmer] by (simp add: emit_in_range_def)
next
  assume "end_in_range m kmer"
  then show "\<exists>w. kmerEnd m kmer = Some w \<and> uint w = end_formula m kmer"
    using kmerEnd_exact [of m kmer] by (simp add: end_in_range_def)
next
  assume "start_in_range m kmer"
  then show "\<exists>w. kmerStart m kmer = Some w \<and> uint w = start_formula m kmer"
    using kmerStart_exact [of m kmer] by (simp add: start_in_range_def)
qed

theorem state_index_formulas_witness:
  "emit_no_overflow \<lparr> components = 3, nKmers = 4 \<rparr> 1 \<and>
   end_no_overflow \<lparr> components = 3, nKmers = 4 \<rparr> \<and>
   start_no_overflow \<lparr> components = 3, nKmers = 4 \<rparr> \<and>
   emit_in_range \<lparr> components = 3, nKmers = 4 \<rparr> 2 1 \<and>
   end_in_range \<lparr> components = 3, nKmers = 4 \<rparr> 2 \<and>
   start_in_range \<lparr> components = 3, nKmers = 4 \<rparr> 2 \<and>
   kmerEmit \<lparr> components = 3, nKmers = 4 \<rparr> 2 1 = Some 7 \<and>
   kmerEnd \<lparr> components = 3, nKmers = 4 \<rparr> 2 = Some 15 \<and>
   kmerStart \<lparr> components = 3, nKmers = 4 \<rparr> 2 = Some 19 \<and>
   emit_formula \<lparr> components = 3, nKmers = 4 \<rparr> 2 1 = 7 \<and>
   end_formula \<lparr> components = 3, nKmers = 4 \<rparr> 2 = 15 \<and>
   start_formula \<lparr> components = 3, nKmers = 4 \<rparr> 2 = 19 \<and>
   emit_no_overflow \<lparr> components = - 3, nKmers = 4 \<rparr> (- 2) \<and>
   end_no_overflow \<lparr> components = - 3, nKmers = 4 \<rparr> \<and>
   start_no_overflow \<lparr> components = - 3, nKmers = 4 \<rparr> \<and>
   emit_formula \<lparr> components = - 3, nKmers = 4 \<rparr> 2 (- 2) = - 5 \<and>
   end_formula \<lparr> components = - 3, nKmers = 4 \<rparr> 2 = - 9 \<and>
   start_formula \<lparr> components = - 3, nKmers = 4 \<rparr> 2 = - 5 \<and>
   (\<exists>w. kmerEmit \<lparr> components = - 3, nKmers = 4 \<rparr> 2 (- 2) = Some w \<and> uint w = 2 ^ 64 - 5) \<and>
   (\<exists>w. kmerEnd \<lparr> components = - 3, nKmers = 4 \<rparr> 2 = Some w \<and> uint w = 2 ^ 64 - 9) \<and>
   (\<exists>w. kmerStart \<lparr> components = - 3, nKmers = 4 \<rparr> 2 = Some w \<and> uint w = 2 ^ 64 - 5)"
proof -
  let ?m = "\<lparr> components = 3, nKmers = 4 \<rparr>"
  let ?n = "\<lparr> components = - 3, nKmers = 4 \<rparr>"
  have o: "emit_no_overflow ?m 1" "end_no_overflow ?m" "start_no_overflow ?m"
    by (simp_all add: emit_no_overflow_def end_no_overflow_def start_no_overflow_def int_fits_def)
  have r: "emit_in_range ?m 2 1" "end_in_range ?m 2" "start_in_range ?m 2"
    by (simp_all add: emit_in_range_def end_in_range_def start_in_range_def int_fits_def
          emit_formula_def end_formula_def start_formula_def)
  have f: "emit_formula ?m 2 1 = 7" "end_formula ?m 2 = 15" "start_formula ?m 2 = 19"
    by (simp_all add: emit_formula_def end_formula_def start_formula_def)
  have t: "\<exists>w. kmerEmit ?m 2 1 = Some w \<and> uint w = 7"
    "\<exists>w. kmerEnd ?m 2 = Some w \<and> uint w = 15"
    "\<exists>w. kmerStart ?m 2 = Some w \<and> uint w = 19"
    using state_index_formulas [of ?m 1 2] o f by simp_all
  have v: "kmerEmit ?m 2 1 = Some 7" "kmerEnd ?m 2 = Some 15" "kmerStart ?m 2 = Some 19"
    using t by (auto simp: word_uint_eq_iff)
  have o': "emit_no_overflow ?n (- 2)" "end_no_overflow ?n" "start_no_overflow ?n"
    by (simp_all add: emit_no_overflow_def end_no_overflow_def start_no_overflow_def int_fits_def)
  have f': "emit_formula ?n 2 (- 2) = - 5" "end_formula ?n 2 = - 9" "start_formula ?n 2 = - 5"
    by (simp_all add: emit_formula_def end_formula_def start_formula_def)
  have w: "\<exists>w. kmerEmit ?n 2 (- 2) = Some w \<and> uint w = 2 ^ 64 - 5"
    "\<exists>w. kmerEnd ?n 2 = Some w \<and> uint w = 2 ^ 64 - 9"
    "\<exists>w. kmerStart ?n 2 = Some w \<and> uint w = 2 ^ 64 - 5"
    using state_index_formulas [of ?n "- 2" 2] o' f' by simp_all
  from o r f v o' f' w show ?thesis by simp
qed

subsection \<open>Nested maps\<close>

lemma mset_multimap_insert: "mset (multimap_insert k v ps) = add_mset (k, v) (mset ps)"
  by (induction ps) auto

lemma set_multimap_insert: "set (multimap_insert k v ps) = insert (k, v) (set ps)"
  using arg_cong [OF mset_multimap_insert [of k v ps], of set_mset] by simp

lemma multimap_insert_not_Nil: "multimap_insert k v ps \<noteq> []"
  by (cases ps) (auto split: if_splits)

lemma sorted_multimap_insert:
  "sorted (map fst ps) \<Longrightarrow> sorted (map fst (multimap_insert k v ps))"
  by (induction ps) (fastforce simp: set_multimap_insert)+

lemma edges_out_Nil: "edges_out i [] = []"
  by (simp add: edges_out_def)

lemma edges_out_Cons:
  "edges_out i ((out, stm) # ostm) = map (\<lambda>(d, t). (i, out, d, t)) stm @ edges_out i ostm"
  by (simp add: edges_out_def)

lemma edges_Nil: "edges [] = []"
  by (simp add: edges_def)

lemma edges_Cons: "edges ((i, ostm) # iostm) = edges_out i ostm @ edges iostm"
  by (simp add: edges_def)

lemma mset_edges_out_modify:
  "mset (edges_out i (map_modify out (multimap_insert d tr) ostm)) =
   add_mset (i, out, d, tr) (mset (edges_out i ostm))"
  by (induction ostm) (auto simp: edges_out_Nil edges_out_Cons mset_multimap_insert)

lemma mset_edges_insert_trans:
  "mset (edges (insert_trans i out d tr iostm)) = add_mset (i, out, d, tr) (mset (edges iostm))"
  unfolding insert_trans_def
  by (induction iostm)
     (auto simp: edges_Nil edges_Cons edges_out_Nil edges_out_Cons mset_edges_out_modify mset_multimap_insert)

lemma set_fst_map_modify: "fst ` set (map_modify k f ps) = insert k (fst ` set ps)"
proof (induction ps)
  case Nil
  then show ?case by simp
next
  case (Cons p ps)
  obtain a b where p: "p = (a, b)" by (cases p)
  show ?case using Cons.IH by (simp add: p insert_commute)
qed

lemma sorted_map_modify:
  "sorted_wrt (<) (map fst ps) \<Longrightarrow> sorted_wrt (<) (map fst (map_modify k f ps))"
  by (induction ps) (fastforce simp: set_fst_map_modify)+

lemma map_modify_not_Nil: "map_modify k f ps \<noteq> []"
  by (cases ps) (auto split: if_splits)

lemma list_all_map_modify:
  assumes "list_all P ps" and "\<And>b. (k, b) \<in> set ps \<Longrightarrow> P (k, b) \<Longrightarrow> P (k, f b)" and "P (k, f [])"
  shows "list_all P (map_modify k f ps)"
  using assms by (induction ps) auto

lemma wf_ostm_modify:
  assumes "wf_ostm n no ostm" "out < no" "d < n"
  shows "wf_ostm n no (map_modify out (multimap_insert d tr) ostm)"
  unfolding wf_ostm_def
proof (intro conjI)
  show "sorted_wrt (<) (map fst (map_modify out (multimap_insert d tr) ostm))"
    using assms(1) by (simp add: wf_ostm_def sorted_map_modify)
  show "list_all (\<lambda>(out, stm). out < no \<and> stm \<noteq> [] \<and> sorted (map fst stm) \<and> list_all (\<lambda>(d, t). d < n) stm)
          (map_modify out (multimap_insert d tr) ostm)"
    using assms
    by (intro list_all_map_modify)
       (auto simp: wf_ostm_def multimap_insert_not_Nil sorted_multimap_insert list_all_iff set_multimap_insert)
qed

lemma wf_iostm_insert_trans:
  assumes "wf_iostm n ni no iostm" "i < ni" "out < no" "d < n"
  shows "wf_iostm n ni no (insert_trans i out d tr iostm)"
  unfolding wf_iostm_def insert_trans_def
proof (intro conjI)
  show "sorted_wrt (<) (map fst (map_modify i (map_modify out (multimap_insert d tr)) iostm))"
    using assms(1) by (simp add: wf_iostm_def sorted_map_modify)
  have e: "wf_ostm n no []" by (simp add: wf_ostm_def)
  have e1: "wf_ostm n no (map_modify out (multimap_insert d tr) [])"
    using e assms(3,4) by (rule wf_ostm_modify)
  show "list_all (\<lambda>(i, ostm). i < ni \<and> ostm \<noteq> [] \<and> wf_ostm n no ostm)
          (map_modify i (map_modify out (multimap_insert d tr)) iostm)"
    using assms wf_ostm_modify [OF _ assms(3,4)] e1
    by (intro list_all_map_modify) (auto simp: wf_iostm_def map_modify_not_Nil)
qed

subsection \<open>The loops of \<^verbatim>\<open>init\<close>\<close>

lemma init_trans_Cons_Inr:
  assumes "init_trans ev it ot params s (t # ts) ti st = Inr r"
  obtains i out lw where
    "sym2tok it (trans_in t) = Some i" "sym2tok ot (trans_out t) = Some out"
    "eval_logWeight ev params t = Inr lw" "dest t < length st"
    "init_trans ev it ot params s ts (Suc ti)
       (insert_edge s (dest t) i out \<lparr> logWeight = lw, transIndex = ti \<rparr> st) = Inr r"
  using assms by (auto simp: Let_def split: option.splits sum.splits if_splits)

lemma length_insert_edge: "length (insert_edge s d i out tr st) = length st"
  by (simp add: insert_edge_def Let_def)

lemma insert_edge_frame:
  assumes "r < length st"
  shows "EvaluatedMachineState.name (insert_edge s d i out tr st ! r) = EvaluatedMachineState.name (st ! r)"
    and "EvaluatedMachineState.nTransitions (insert_edge s d i out tr st ! r) = EvaluatedMachineState.nTransitions (st ! r)"
    and "transOffset (insert_edge s d i out tr st ! r) = transOffset (st ! r)"
    and "outgoing (insert_edge s d i out tr st ! r) =
           (if r = s then insert_trans i out d tr (outgoing (st ! s)) else outgoing (st ! r))"
  using assms
  by (cases "r = d"; cases "r = s"; simp add: insert_edge_def Let_def)+

lemma init_trans_length:
  "init_trans ev it ot params s ts ti st = Inr (ti', st') \<Longrightarrow>
   ti' = ti + length ts \<and> length st' = length st"
proof (induction ts arbitrary: ti st)
  case Nil
  then show ?case by simp
next
  case (Cons t ts)
  from Cons.prems obtain i out lw where
    "init_trans ev it ot params s ts (Suc ti)
       (insert_edge s (dest t) i out \<lparr> logWeight = lw, transIndex = ti \<rparr> st) = Inr (ti', st')"
    by (rule init_trans_Cons_Inr)
  from Cons.IH [OF this] show ?case by (simp add: length_insert_edge)
qed

lemma init_trans_frame:
  "init_trans ev it ot params s ts ti st = Inr (ti', st') \<Longrightarrow> r < length st \<Longrightarrow>
   EvaluatedMachineState.name (st' ! r) = EvaluatedMachineState.name (st ! r) \<and>
   EvaluatedMachineState.nTransitions (st' ! r) = EvaluatedMachineState.nTransitions (st ! r) \<and>
   transOffset (st' ! r) = transOffset (st ! r) \<and>
   (r \<noteq> s \<longrightarrow> outgoing (st' ! r) = outgoing (st ! r))"
proof (induction ts arbitrary: ti st)
  case Nil
  then show ?case by simp
next
  case (Cons t ts)
  from Cons.prems(1) obtain i out lw where
    "init_trans ev it ot params s ts (Suc ti)
       (insert_edge s (dest t) i out \<lparr> logWeight = lw, transIndex = ti \<rparr> st) = Inr (ti', st')"
    by (rule init_trans_Cons_Inr)
  from Cons.IH [OF this] Cons.prems(2) show ?case
    by (simp add: length_insert_edge insert_edge_frame)
qed

lemma init_trans_edges:
  "init_trans ev it ot params s ts ti st = Inr (ti', st') \<Longrightarrow> s < length st \<Longrightarrow>
   \<exists>es. map Some es = map (stored_edge ev it ot params) (enumerate ti ts) \<and>
        mset (edges (outgoing (st' ! s))) = mset (edges (outgoing (st ! s))) + mset es"
proof (induction ts arbitrary: ti st)
  case Nil
  then show ?case by simp
next
  case (Cons t ts)
  from Cons.prems(1) obtain i out lw where
    f: "sym2tok it (trans_in t) = Some i" "sym2tok ot (trans_out t) = Some out"
       "eval_logWeight ev params t = Inr lw"
    and rec: "init_trans ev it ot params s ts (Suc ti)
       (insert_edge s (dest t) i out \<lparr> logWeight = lw, transIndex = ti \<rparr> st) = Inr (ti', st')"
    by (rule init_trans_Cons_Inr)
  let ?tr = "\<lparr> logWeight = lw, transIndex = ti \<rparr>"
  let ?st = "insert_edge s (dest t) i out ?tr st"
  from Cons.IH [OF rec] Cons.prems(2) obtain es where
    es: "map Some es = map (stored_edge ev it ot params) (enumerate (Suc ti) ts)"
        "mset (edges (outgoing (st' ! s))) = mset (edges (outgoing (?st ! s))) + mset es"
    by (auto simp: length_insert_edge)
  have e: "stored_edge ev it ot params (ti, t) = Some (i, out, dest t, ?tr)"
    by (simp add: stored_edge_def f)
  have "mset (edges (outgoing (?st ! s))) = add_mset (i, out, dest t, ?tr) (mset (edges (outgoing (st ! s))))"
    using Cons.prems(2) by (simp add: insert_edge_frame mset_edges_insert_trans)
  with es e have
    "map Some ((i, out, dest t, ?tr) # es) = map (stored_edge ev it ot params) (enumerate ti (t # ts)) \<and>
     mset (edges (outgoing (st' ! s))) = mset (edges (outgoing (st ! s))) + mset ((i, out, dest t, ?tr) # es)"
    by simp
  then show ?case by blast
qed

lemma init_trans_wf:
  assumes "init_trans ev it ot params s ts ti st = Inr (ti', st')"
    and "wf_tokenizer it" "wf_tokenizer ot" "s < length st"
    and "\<forall>r<length st. wf_iostm (length st) (length (tok2sym it)) (length (tok2sym ot)) (outgoing (st ! r))"
  shows "\<forall>r<length st'. wf_iostm (length st') (length (tok2sym it)) (length (tok2sym ot)) (outgoing (st' ! r))"
  using assms(1,4,5)
proof (induction ts arbitrary: ti st)
  case Nil
  then show ?case by simp
next
  case (Cons t ts)
  from Cons.prems(1) obtain i out lw where
    f: "sym2tok it (trans_in t) = Some i" "sym2tok ot (trans_out t) = Some out" "dest t < length st"
    and rec: "init_trans ev it ot params s ts (Suc ti)
       (insert_edge s (dest t) i out \<lparr> logWeight = lw, transIndex = ti \<rparr> st) = Inr (ti', st')"
    by (rule init_trans_Cons_Inr)
  have b: "i < length (tok2sym it)" "out < length (tok2sym ot)"
    using f assms(2,3) by (auto simp: wf_tokenizer_def)
  show ?case
  proof (rule Cons.IH [OF rec])
    show "s < length (insert_edge s (dest t) i out \<lparr>logWeight = lw, transIndex = ti\<rparr> st)"
      using Cons.prems(2) by (simp add: length_insert_edge)
    show "\<forall>r<length (insert_edge s (dest t) i out \<lparr>logWeight = lw, transIndex = ti\<rparr> st).
            wf_iostm (length (insert_edge s (dest t) i out \<lparr>logWeight = lw, transIndex = ti\<rparr> st))
              (length (tok2sym it)) (length (tok2sym ot))
              (outgoing (insert_edge s (dest t) i out \<lparr>logWeight = lw, transIndex = ti\<rparr> st ! r))"
      using Cons.prems(2,3) b f(3)
      by (simp add: length_insert_edge insert_edge_frame wf_iostm_insert_trans)
  qed
qed

lemma init_states_Cons_Inr:
  assumes "init_states ev it ot params m (s # ss) tiCum st = Inr r"
  obtains ti st2 where
    "s < length (Machine.state m)"
    "init_trans ev it ot params s (trans (Machine.state m ! s)) 0
       (st[s := (st ! s)\<lparr> EvaluatedMachineState.name := MachineState.name (Machine.state m ! s) \<rparr>]) = Inr (ti, st2)"
    "init_states ev it ot params m ss (tiCum + ti)
       (st2[s := (st2 ! s)\<lparr> EvaluatedMachineState.nTransitions := ti, transOffset := tiCum \<rparr>]) = Inr r"
  using assms by (auto simp: Let_def split: sum.splits if_splits)

text \<open>What one round of the outer loop does to the state vector.\<close>

lemma init_states_round:
  fixes tiCum :: nat
  assumes tr: "init_trans ev it ot params s ts 0
       (st[s := (st ! s)\<lparr> EvaluatedMachineState.name := nm \<rparr>]) = Inr (ti, st2)"
    and s: "s < length st"
    and st3_def: "st3 = st2[s := (st2 ! s)\<lparr> EvaluatedMachineState.nTransitions := ti, transOffset := tiCum \<rparr>]"
  shows "length st3 = length st"
    and "ti = length ts"
    and "EvaluatedMachineState.name (st3 ! s) = nm"
    and "EvaluatedMachineState.nTransitions (st3 ! s) = length ts"
    and "transOffset (st3 ! s) = tiCum"
    and "\<exists>es. map Some es = map (stored_edge ev it ot params) (enumerate 0 ts) \<and>
           mset (edges (outgoing (st3 ! s))) = mset (edges (outgoing (st ! s))) + mset es"
    and "\<And>r. r < length st \<Longrightarrow> r \<noteq> s \<Longrightarrow>
           EvaluatedMachineState.name (st3 ! r) = EvaluatedMachineState.name (st ! r) \<and>
           EvaluatedMachineState.nTransitions (st3 ! r) = EvaluatedMachineState.nTransitions (st ! r) \<and>
           transOffset (st3 ! r) = transOffset (st ! r) \<and>
           outgoing (st3 ! r) = outgoing (st ! r)"
proof -
  let ?st1 = "st[s := (st ! s)\<lparr> EvaluatedMachineState.name := nm \<rparr>]"
  have l: "ti = 0 + length ts \<and> length st2 = length ?st1"
    using tr by (rule init_trans_length)
  then show "length st3 = length st" "ti = length ts"
    by (simp_all add: st3_def)
  have s2: "s < length st2" using l s by simp
  have fr: "EvaluatedMachineState.name (st2 ! r) = EvaluatedMachineState.name (?st1 ! r) \<and>
        EvaluatedMachineState.nTransitions (st2 ! r) = EvaluatedMachineState.nTransitions (?st1 ! r) \<and>
        transOffset (st2 ! r) = transOffset (?st1 ! r) \<and>
        (r \<noteq> s \<longrightarrow> outgoing (st2 ! r) = outgoing (?st1 ! r))" if "r < length st" for r
    using init_trans_frame [OF tr, of r] that by simp
  show "EvaluatedMachineState.name (st3 ! s) = nm"
    using fr [OF s] s s2 by (simp add: st3_def)
  show "EvaluatedMachineState.nTransitions (st3 ! s) = length ts"
    using s2 l by (simp add: st3_def)
  show "transOffset (st3 ! s) = tiCum"
    using s2 by (simp add: st3_def)
  show "\<exists>es. map Some es = map (stored_edge ev it ot params) (enumerate 0 ts) \<and>
           mset (edges (outgoing (st3 ! s))) = mset (edges (outgoing (st ! s))) + mset es"
    using init_trans_edges [OF tr] s s2 by (simp add: st3_def)
  show "EvaluatedMachineState.name (st3 ! r) = EvaluatedMachineState.name (st ! r) \<and>
           EvaluatedMachineState.nTransitions (st3 ! r) = EvaluatedMachineState.nTransitions (st ! r) \<and>
           transOffset (st3 ! r) = transOffset (st ! r) \<and>
           outgoing (st3 ! r) = outgoing (st ! r)" if "r < length st" "r \<noteq> s" for r
    using fr [OF that(1)] that by (simp add: st3_def)
qed

lemma init_states_length:
  "init_states ev it ot params m ss tiCum st = Inr (tiCum', st') \<Longrightarrow> \<forall>s\<in>set ss. s < length st \<Longrightarrow>
   length st' = length st \<and>
   tiCum' = tiCum + sum_list (map (\<lambda>s. length (trans (Machine.state m ! s))) ss)"
proof (induction ss arbitrary: tiCum st)
  case Nil
  then show ?case by simp
next
  case (Cons s ss)
  from Cons.prems(1) obtain ti st2 where
    tr: "init_trans ev it ot params s (trans (Machine.state m ! s)) 0
       (st[s := (st ! s)\<lparr> EvaluatedMachineState.name := MachineState.name (Machine.state m ! s) \<rparr>]) = Inr (ti, st2)"
    and rec: "init_states ev it ot params m ss (tiCum + ti)
       (st2[s := (st2 ! s)\<lparr> EvaluatedMachineState.nTransitions := ti, transOffset := tiCum \<rparr>]) = Inr (tiCum', st')"
    by (rule init_states_Cons_Inr)
  have s: "s < length st" using Cons.prems(2) by simp
  note rd = init_states_round [OF tr s refl]
  from Cons.IH [OF rec] Cons.prems(2) rd(1,2) show ?case by simp
qed

lemma init_states_frame:
  "init_states ev it ot params m ss tiCum st = Inr (tiCum', st') \<Longrightarrow> \<forall>s\<in>set ss. s < length st \<Longrightarrow>
   r < length st \<Longrightarrow> r \<notin> set ss \<Longrightarrow>
   EvaluatedMachineState.name (st' ! r) = EvaluatedMachineState.name (st ! r) \<and>
   EvaluatedMachineState.nTransitions (st' ! r) = EvaluatedMachineState.nTransitions (st ! r) \<and>
   transOffset (st' ! r) = transOffset (st ! r) \<and>
   outgoing (st' ! r) = outgoing (st ! r)"
proof (induction ss arbitrary: tiCum st)
  case Nil
  then show ?case by simp
next
  case (Cons s ss)
  from Cons.prems(1) obtain ti st2 where
    tr: "init_trans ev it ot params s (trans (Machine.state m ! s)) 0
       (st[s := (st ! s)\<lparr> EvaluatedMachineState.name := MachineState.name (Machine.state m ! s) \<rparr>]) = Inr (ti, st2)"
    and rec: "init_states ev it ot params m ss (tiCum + ti)
       (st2[s := (st2 ! s)\<lparr> EvaluatedMachineState.nTransitions := ti, transOffset := tiCum \<rparr>]) = Inr (tiCum', st')"
    by (rule init_states_Cons_Inr)
  have s: "s < length st" using Cons.prems(2) by simp
  note rd = init_states_round [OF tr s refl]
  have "r \<noteq> s" "r \<notin> set ss" using Cons.prems(4) by auto
  with Cons.IH [OF rec, of ] Cons.prems(2,3) rd(1) rd(7) [of r] show ?case by simp
qed

lemma init_states_elem:
  "init_states ev it ot params m ss tiCum st = Inr (tiCum', st') \<Longrightarrow> \<forall>s\<in>set ss. s < length st \<Longrightarrow>
   distinct ss \<Longrightarrow> j < length ss \<Longrightarrow>
   EvaluatedMachineState.name (st' ! (ss ! j)) = MachineState.name (Machine.state m ! (ss ! j)) \<and>
   EvaluatedMachineState.nTransitions (st' ! (ss ! j)) = length (trans (Machine.state m ! (ss ! j))) \<and>
   transOffset (st' ! (ss ! j)) =
     tiCum + sum_list (map (\<lambda>s. length (trans (Machine.state m ! s))) (take j ss)) \<and>
   (\<exists>es. map Some es = map (stored_edge ev it ot params) (enumerate 0 (trans (Machine.state m ! (ss ! j)))) \<and>
         mset (edges (outgoing (st' ! (ss ! j)))) = mset (edges (outgoing (st ! (ss ! j)))) + mset es)"
proof (induction ss arbitrary: tiCum st j)
  case Nil
  then show ?case by simp
next
  case (Cons s ss)
  from Cons.prems(1) obtain ti st2 where
    tr: "init_trans ev it ot params s (trans (Machine.state m ! s)) 0
       (st[s := (st ! s)\<lparr> EvaluatedMachineState.name := MachineState.name (Machine.state m ! s) \<rparr>]) = Inr (ti, st2)"
    and rec: "init_states ev it ot params m ss (tiCum + ti)
       (st2[s := (st2 ! s)\<lparr> EvaluatedMachineState.nTransitions := ti, transOffset := tiCum \<rparr>]) = Inr (tiCum', st')"
    by (rule init_states_Cons_Inr)
  let ?st3 = "st2[s := (st2 ! s)\<lparr> EvaluatedMachineState.nTransitions := ti, transOffset := tiCum \<rparr>]"
  have s: "s < length st" using Cons.prems(2) by simp
  note rd = init_states_round [OF tr s refl]
  have l3: "length ?st3 = length st" by (rule rd(1))
  have b3: "\<forall>s\<in>set ss. s < length ?st3" using Cons.prems(2) l3 by simp
  show ?case
  proof (cases j)
    case 0
    have "s \<notin> set ss" using Cons.prems(3) by simp
    from init_states_frame [OF rec b3 _ this] s l3
    have "EvaluatedMachineState.name (st' ! s) = EvaluatedMachineState.name (?st3 ! s) \<and>
      EvaluatedMachineState.nTransitions (st' ! s) = EvaluatedMachineState.nTransitions (?st3 ! s) \<and>
      transOffset (st' ! s) = transOffset (?st3 ! s) \<and> outgoing (st' ! s) = outgoing (?st3 ! s)"
      by simp
    with rd(3,4,5,6) 0 show ?thesis by simp
  next
    case (Suc j')
    have j': "j' < length ss" using Cons.prems(4) Suc by simp
    then have mem: "ss ! j' \<in> set ss" by simp
    then have ne: "ss ! j' \<noteq> s" and lt: "ss ! j' < length st"
      using Cons.prems(2,3) by auto
    have "distinct ss" using Cons.prems(3) by simp
    from Cons.IH [OF rec b3 this j'] rd(7) [OF lt ne] rd(2) Suc
    show ?thesis by (simp add: add.assoc)
  qed
qed

lemma init_states_wf:
  assumes "init_states ev it ot params m ss tiCum st = Inr (tiCum', st')"
    and "wf_tokenizer it" "wf_tokenizer ot" "\<forall>s\<in>set ss. s < length st"
    and "\<forall>r<length st. wf_iostm (length st) (length (tok2sym it)) (length (tok2sym ot)) (outgoing (st ! r))"
  shows "\<forall>r<length st'. wf_iostm (length st') (length (tok2sym it)) (length (tok2sym ot)) (outgoing (st' ! r))"
  using assms(1,4,5)
proof (induction ss arbitrary: tiCum st)
  case Nil
  then show ?case by simp
next
  case (Cons s ss)
  from Cons.prems(1) obtain ti st2 where
    tr: "init_trans ev it ot params s (trans (Machine.state m ! s)) 0
       (st[s := (st ! s)\<lparr> EvaluatedMachineState.name := MachineState.name (Machine.state m ! s) \<rparr>]) = Inr (ti, st2)"
    and rec: "init_states ev it ot params m ss (tiCum + ti)
       (st2[s := (st2 ! s)\<lparr> EvaluatedMachineState.nTransitions := ti, transOffset := tiCum \<rparr>]) = Inr (tiCum', st')"
    by (rule init_states_Cons_Inr)
  let ?st1 = "st[s := (st ! s)\<lparr> EvaluatedMachineState.name := MachineState.name (Machine.state m ! s) \<rparr>]"
  let ?st3 = "st2[s := (st2 ! s)\<lparr> EvaluatedMachineState.nTransitions := ti, transOffset := tiCum \<rparr>]"
  have s: "s < length st" using Cons.prems(2) by simp
  have w1: "\<forall>r<length ?st1. wf_iostm (length ?st1) (length (tok2sym it)) (length (tok2sym ot)) (outgoing (?st1 ! r))"
    using Cons.prems(3) s by (auto simp: nth_list_update)
  have s1: "s < length ?st1" using s by simp
  note w2 = init_trans_wf [OF tr assms(2,3) s1 w1]
  have l2: "length st2 = length st" using init_trans_length [OF tr] by simp
  have w3: "\<forall>r<length ?st3. wf_iostm (length ?st3) (length (tok2sym it)) (length (tok2sym ot)) (outgoing (?st3 ! r))"
    using w2 s l2 by (auto simp: nth_list_update)
  show ?case
    using Cons.prems(2) l2 by (intro Cons.IH [OF rec _ w3]) simp
qed

subsection \<open>The constructors\<close>

lemma wf_Tokenizer_new: "wf_tokenizer (Tokenizer_new syms)"
proof -
  have "k < length ([] # syms) \<and> ([] # syms) ! k = x"
    if "map_of (zip ([] # syms) [0 ..< Suc (length syms)]) x = Some k" for x k
  proof -
    from map_of_SomeD [OF that] obtain j where
      j: "j < length ([] # syms)" "([] # syms) ! j = x" "[0 ..< Suc (length syms)] ! j = k"
      unfolding in_set_zip by auto
    from j(1) have "[0 ..< Suc (length syms)] ! j = j"
      by (metis add_0 length_Cons nth_upt)
    with j show ?thesis by simp
  qed
  then show ?thesis
    by (simp add: wf_tokenizer_def Tokenizer_new_def)
qed

lemma empty_symbol_token: "sym2tok (Tokenizer_new syms) [] = Some emptyToken"
proof -
  have "[0 ..< Suc (length syms)] = 0 # [Suc 0 ..< Suc (length syms)]"
    by (rule upt_conv_Cons) simp
  then show ?thesis
    by (simp add: Tokenizer_new_def emptyToken_def del: upt_Suc)
qed

lemma token_zero_empty:
  assumes "sym2tok (Tokenizer_new syms) x = Some emptyToken"
  shows "x = []"
proof -
  from wf_Tokenizer_new [of syms] assms
  have "tok2sym (Tokenizer_new syms) ! emptyToken = x"
    by (simp add: wf_tokenizer_def)
  then show ?thesis by (simp add: Tokenizer_new_def emptyToken_def)
qed

lemma evaluate_Inr:
  assumes "evaluate ev m params = Inr em"
  obtains tiCum st where
    "isAdvancingMachine m"
    "init_states ev (Tokenizer_new (inputAlphabet m)) (Tokenizer_new (outputAlphabet m)) params m
       [0 ..< nStates m] 0 (replicate (nStates m) empty_state) = Inr (tiCum, st)"
    "inputTokenizer em = Tokenizer_new (inputAlphabet m)"
    "outputTokenizer em = Tokenizer_new (outputAlphabet m)"
    "EvaluatedMachine.state em = st"
    "EvaluatedMachine.nTransitions em = tiCum"
  using assms
  by (auto simp: evaluate_def init_def unevaluated_def split: if_splits sum.splits)

lemma wf_empty_states:
  "\<forall>r<length (replicate n empty_state). wf_iostm a b c (outgoing (replicate n empty_state ! r))"
  by (simp add: empty_state_def wf_iostm_def)

lemma evaluate_length:
  assumes "evaluate ev m params = Inr em"
  shows "length (EvaluatedMachine.state em) = nStates m"
proof -
  from assms obtain tiCum st where
    i: "init_states ev (Tokenizer_new (inputAlphabet m)) (Tokenizer_new (outputAlphabet m)) params m
       [0 ..< nStates m] 0 (replicate (nStates m) empty_state) = Inr (tiCum, st)"
    and e: "EvaluatedMachine.state em = st"
    by (rule evaluate_Inr)
  from init_states_length [OF i] e show ?thesis by simp
qed

lemma evaluate_wf:
  assumes "evaluate ev m params = Inr em"
  shows "wf_em em"
proof -
  from assms obtain tiCum st where
    i: "init_states ev (Tokenizer_new (inputAlphabet m)) (Tokenizer_new (outputAlphabet m)) params m
       [0 ..< nStates m] 0 (replicate (nStates m) empty_state) = Inr (tiCum, st)"
    and e: "EvaluatedMachine.state em = st" "inputTokenizer em = Tokenizer_new (inputAlphabet m)"
      "outputTokenizer em = Tokenizer_new (outputAlphabet m)"
    by (rule evaluate_Inr)
  have "\<forall>r<length st. wf_iostm (length st) (length (tok2sym (Tokenizer_new (inputAlphabet m))))
          (length (tok2sym (Tokenizer_new (outputAlphabet m)))) (outgoing (st ! r))"
    by (rule init_states_wf [OF i wf_Tokenizer_new wf_Tokenizer_new _ wf_empty_states]) simp
  then show ?thesis
    by (simp add: wf_em_def e list_all_length)
qed

lemma evaluate_state:
  assumes "evaluate ev m params = Inr em" and "s < nStates m"
  shows "EvaluatedMachineState.name (EvaluatedMachine.state em ! s) = MachineState.name (Machine.state m ! s)"
    and "EvaluatedMachineState.nTransitions (EvaluatedMachine.state em ! s) = length (trans (Machine.state m ! s))"
    and "transOffset (EvaluatedMachine.state em ! s) =
           sum_list (map (\<lambda>ms. length (trans ms)) (take s (Machine.state m)))"
    and "\<exists>es. map Some es = map (stored_edge ev (inputTokenizer em) (outputTokenizer em) params)
                              (enumerate 0 (trans (Machine.state m ! s))) \<and>
              mset (edges (outgoing (EvaluatedMachine.state em ! s))) = mset es"
proof -
  from assms(1) obtain tiCum st where
    i: "init_states ev (Tokenizer_new (inputAlphabet m)) (Tokenizer_new (outputAlphabet m)) params m
       [0 ..< nStates m] 0 (replicate (nStates m) empty_state) = Inr (tiCum, st)"
    and e: "EvaluatedMachine.state em = st" "inputTokenizer em = Tokenizer_new (inputAlphabet m)"
      "outputTokenizer em = Tokenizer_new (outputAlphabet m)"
    by (rule evaluate_Inr)
  have "map (\<lambda>r. length (trans (Machine.state m ! r))) [0 ..< s] =
        map (\<lambda>ms. length (trans ms)) (take s (Machine.state m))"
    using assms(2) by (intro nth_equalityI) (simp_all add: nStates_def)
  with init_states_elem [OF i, of s] assms(2)
  show "EvaluatedMachineState.name (EvaluatedMachine.state em ! s) = MachineState.name (Machine.state m ! s)"
    and "EvaluatedMachineState.nTransitions (EvaluatedMachine.state em ! s) = length (trans (Machine.state m ! s))"
    and "transOffset (EvaluatedMachine.state em ! s) =
           sum_list (map (\<lambda>ms. length (trans ms)) (take s (Machine.state m)))"
    and "\<exists>es. map Some es = map (stored_edge ev (inputTokenizer em) (outputTokenizer em) params)
                              (enumerate 0 (trans (Machine.state m ! s))) \<and>
              mset (edges (outgoing (EvaluatedMachine.state em ! s))) = mset es"
    by (simp_all add: e take_upt empty_state_def edges_Nil)
qed

lemma evaluate_nTransitions:
  assumes "evaluate ev m params = Inr em"
  shows "EvaluatedMachine.nTransitions em = sum_list (map (\<lambda>ms. length (trans ms)) (Machine.state m))"
proof -
  from assms(1) obtain tiCum st where
    i: "init_states ev (Tokenizer_new (inputAlphabet m)) (Tokenizer_new (outputAlphabet m)) params m
       [0 ..< nStates m] 0 (replicate (nStates m) empty_state) = Inr (tiCum, st)"
    and e: "EvaluatedMachine.nTransitions em = tiCum"
    by (rule evaluate_Inr)
  have "map (\<lambda>r. length (trans (Machine.state m ! r))) [0 ..< nStates m] =
        map (\<lambda>ms. length (trans ms)) (Machine.state m)"
    by (intro nth_equalityI) (simp_all add: nStates_def)
  with init_states_length [OF i] e show ?thesis by simp
qed

lemmas evaluate_simps = evaluate_def init_def unevaluated_def Tokenizer_new_def inputAlphabet_def
  outputAlphabet_def first_seen_def isAdvancingMachine_def isSilent_def inputEmpty_def
  outputEmpty_def nStates_def empty_state_def insert_trans_def insert_edge_def eval_logWeight_def
  upt_conv_Cons Let_def

subsection \<open>The check at the head of \<^verbatim>\<open>init\<close>\<close>

text \<open>
  C2: a machine that is not advancing makes either constructor stop with the assertion's
  error, whether parameters are bound (\<open>params = Some defs\<close>) or not (\<open>params = None\<close>), so
  that no evaluated machine is returned.
\<close>

theorem not_advancing_is_fatal:
  "\<not> isAdvancingMachine m \<Longrightarrow>
   evaluate ev m params = Inl NotAdvancing \<and> (\<forall>em. evaluate ev m params \<noteq> Inr em)"
  by (simp add: evaluate_def init_def)

theorem not_advancing_is_fatal_witness:
  "\<not> isAdvancingMachine machine_back \<and>
   evaluate ev_literal machine_back (Some ()) = Inl NotAdvancing \<and>
   evaluate ev_literal machine_back None = Inl NotAdvancing"
proof -
  have n: "\<not> isAdvancingMachine machine_back"
    by (simp add: machine_back_def isAdvancingMachine_def isSilent_def inputEmpty_def outputEmpty_def)
  from not_advancing_is_fatal [OF n, of ev_literal "Some ()"]
       not_advancing_is_fatal [OF n, of ev_literal None] n
  show ?thesis by simp
qed

subsection \<open>Transition indices and offsets\<close>

lemma map_add_upt_left: "map (\<lambda>k. sum_list xs + k) [0 ..< x] = [sum_list xs ..< sum_list xs + (x::nat)]"
proof -
  have "map (\<lambda>k. k + sum_list xs) [0 ..< x] = [sum_list xs ..< x + sum_list xs]"
    by (rule map_add_upt)
  then show ?thesis by (simp only: add.commute)
qed

lemma dense_ids:
  "concat (map (\<lambda>s. map (\<lambda>k. sum_list (take s xs) + k) [0 ..< xs ! s]) [0 ..< length xs]) =
   [0 ..< sum_list (xs :: nat list)]"
proof (induction xs rule: rev_induct)
  case Nil
  then show ?case by simp
next
  case (snoc x xs)
  have a: "map (\<lambda>s. map (\<lambda>k. sum_list (take s (xs @ [x])) + k) [0 ..< (xs @ [x]) ! s]) [0 ..< length xs] =
        map (\<lambda>s. map (\<lambda>k. sum_list (take s xs) + k) [0 ..< xs ! s]) [0 ..< length xs]"
    by (rule map_cong) (simp_all add: nth_append)
  have c: "[0 ..< sum_list xs + x] = [0 ..< sum_list xs] @ [sum_list xs ..< sum_list xs + x]"
    by (simp only: upt_add_eq_append [OF le0])
  have "concat (map (\<lambda>s. map (\<lambda>k. sum_list (take s (xs @ [x])) + k) [0 ..< (xs @ [x]) ! s]) [0 ..< length (xs @ [x])]) =
     concat (map (\<lambda>s. map (\<lambda>k. sum_list (take s (xs @ [x])) + k) [0 ..< (xs @ [x]) ! s]) [0 ..< length xs]) @
       map (\<lambda>k. sum_list xs + k) [0 ..< x]"
    by simp
  also have "\<dots> = [0 ..< sum_list xs] @ [sum_list xs ..< sum_list xs + x]"
    by (simp only: a snoc.IH map_add_upt_left [of xs x])
  also have "\<dots> = [0 ..< sum_list (xs @ [x])]"
    using c by simp
  finally show ?case .
qed

lemma stored_edges_by_index:
  assumes "map Some es = map (stored_edge ev it ot params) (enumerate 0 ts)"
  shows "length es = length ts"
    and "k < length ts \<Longrightarrow> stored_edge ev it ot params (k, ts ! k) = Some (es ! k)"
proof -
  from assms have "length (map Some es) = length (map (stored_edge ev it ot params) (enumerate 0 ts))"
    by simp
  then show l: "length es = length ts" by simp
  assume k: "k < length ts"
  from assms have "map Some es ! k = map (stored_edge ev it ot params) (enumerate 0 ts) ! k"
    by simp
  with k l show "stored_edge ev it ot params (k, ts ! k) = Some (es ! k)"
    by (simp add: nth_enumerate_eq)
qed

lemma stored_edge_SomeD:
  assumes "stored_edge ev it ot params (k, t) = Some e"
  obtains i out lw where
    "e = (i, out, dest t, \<lparr> logWeight = lw, transIndex = k \<rparr>)"
    "sym2tok it (trans_in t) = Some i" "sym2tok ot (trans_out t) = Some out"
    "eval_logWeight ev params t = Inr lw"
  using assms by (auto simp: stored_edge_def split: option.splits sum.splits)

text \<open>
  C7: in a machine built by either constructor the state vector has one entry for each
  state of the source; the machine's \<^verbatim>\<open>nTransitions\<close> is the sum of the states' transition
  counts; a state's \<^verbatim>\<open>nTransitions\<close> is its own count and its \<^verbatim>\<open>transOffset\<close> the sum of
  the counts of the states before it; the edges stored in its \<^verbatim>\<open>outgoing\<close> map are, listed in
  the order the source has them (the list \<open>es\<close>), the edges of its transitions, the \<open>k\<close>-th
  with \<^verbatim>\<open>transIndex\<close> \<open>k\<close>; and offset plus index runs through \<open>0, 1, ...\<close> up to the total
  without a gap or a repetition.
\<close>

theorem transIndex_and_transOffset:
  assumes "evaluate ev m params = Inr em"
  shows "length (EvaluatedMachine.state em) = nStates m \<and>
    EvaluatedMachine.nTransitions em = sum_list (map (\<lambda>ms. length (trans ms)) (Machine.state m)) \<and>
    (\<forall>s<nStates m.
       EvaluatedMachineState.nTransitions (EvaluatedMachine.state em ! s) = length (trans (Machine.state m ! s)) \<and>
       transOffset (EvaluatedMachine.state em ! s) =
         sum_list (map (\<lambda>ms. length (trans ms)) (take s (Machine.state m))) \<and>
       (\<exists>es. mset (edges (outgoing (EvaluatedMachine.state em ! s))) = mset es \<and>
             length es = length (trans (Machine.state m ! s)) \<and>
             (\<forall>k<length es. \<exists>i out lw.
                 es ! k = (i, out, dest (trans (Machine.state m ! s) ! k), \<lparr> logWeight = lw, transIndex = k \<rparr>) \<and>
                 sym2tok (inputTokenizer em) (trans_in (trans (Machine.state m ! s) ! k)) = Some i \<and>
                 sym2tok (outputTokenizer em) (trans_out (trans (Machine.state m ! s) ! k)) = Some out))) \<and>
    concat (map (\<lambda>s. map (\<lambda>k. transOffset (EvaluatedMachine.state em ! s) + k)
                       [0 ..< EvaluatedMachineState.nTransitions (EvaluatedMachine.state em ! s)])
              [0 ..< nStates m]) = [0 ..< EvaluatedMachine.nTransitions em]"
proof (intro conjI allI impI)
  show "length (EvaluatedMachine.state em) = nStates m"
    using assms by (rule evaluate_length)
  show n: "EvaluatedMachine.nTransitions em = sum_list (map (\<lambda>ms. length (trans ms)) (Machine.state m))"
    using assms by (rule evaluate_nTransitions)
  let ?xs = "map (\<lambda>ms. length (trans ms)) (Machine.state m)"
  have "map (\<lambda>s. map (\<lambda>k. transOffset (EvaluatedMachine.state em ! s) + k)
                [0 ..< EvaluatedMachineState.nTransitions (EvaluatedMachine.state em ! s)]) [0 ..< nStates m] =
        map (\<lambda>s. map (\<lambda>k. sum_list (take s ?xs) + k) [0 ..< ?xs ! s]) [0 ..< length ?xs]"
    using evaluate_state(2,3) [OF assms]
    by (intro nth_equalityI) (simp_all add: nStates_def take_map)
  then show "concat (map (\<lambda>s. map (\<lambda>k. transOffset (EvaluatedMachine.state em ! s) + k)
                       [0 ..< EvaluatedMachineState.nTransitions (EvaluatedMachine.state em ! s)])
              [0 ..< nStates m]) = [0 ..< EvaluatedMachine.nTransitions em]"
    by (simp only: dense_ids n)
next
  fix s assume s: "s < nStates m"
  show "EvaluatedMachineState.nTransitions (EvaluatedMachine.state em ! s) = length (trans (Machine.state m ! s))"
    using assms s by (rule evaluate_state(2))
  show "transOffset (EvaluatedMachine.state em ! s) =
         sum_list (map (\<lambda>ms. length (trans ms)) (take s (Machine.state m)))"
    using assms s by (rule evaluate_state(3))
  let ?ts = "trans (Machine.state m ! s)"
  from evaluate_state(4) [OF assms s] obtain es where
    es: "map Some es = map (stored_edge ev (inputTokenizer em) (outputTokenizer em) params) (enumerate 0 ?ts)"
        "mset (edges (outgoing (EvaluatedMachine.state em ! s))) = mset es"
    by blast
  note by_index = stored_edges_by_index [OF es(1)]
  have "\<exists>i out lw. es ! k = (i, out, dest (?ts ! k), \<lparr> logWeight = lw, transIndex = k \<rparr>) \<and>
          sym2tok (inputTokenizer em) (trans_in (?ts ! k)) = Some i \<and>
          sym2tok (outputTokenizer em) (trans_out (?ts ! k)) = Some out" if "k < length es" for k
  proof -
    from that by_index have "stored_edge ev (inputTokenizer em) (outputTokenizer em) params (k, ?ts ! k) = Some (es ! k)"
      by simp
    then show ?thesis by (rule stored_edge_SomeD) blast
  qed
  with es(2) by_index(1)
  show "\<exists>es. mset (edges (outgoing (EvaluatedMachine.state em ! s))) = mset es \<and>
             length es = length ?ts \<and>
             (\<forall>k<length es. \<exists>i out lw.
                 es ! k = (i, out, dest (?ts ! k), \<lparr> logWeight = lw, transIndex = k \<rparr>) \<and>
                 sym2tok (inputTokenizer em) (trans_in (?ts ! k)) = Some i \<and>
                 sym2tok (outputTokenizer em) (trans_out (?ts ! k)) = Some out)"
    by blast
qed

subsection \<open>The mirror of every edge in \<^verbatim>\<open>incoming\<close>\<close>

lemma set_edges_insert_trans:
  "set (edges (insert_trans i out d tr iostm)) = insert (i, out, d, tr) (set (edges iostm))"
  using arg_cong [OF mset_edges_insert_trans [of i out d tr iostm], of set_mset] by simp

lemma insert_edge_incoming:
  assumes "r < length st" "d < length st"
  shows "set (edges (incoming (insert_edge s d i out tr st ! r))) =
           (if r = d then insert (i, out, s, tr) (set (edges (incoming (st ! r))))
            else set (edges (incoming (st ! r))))"
  using assms
  by (cases "r = d"; cases "r = s"; simp add: insert_edge_def Let_def set_edges_insert_trans)

lemma init_trans_incoming_mono:
  "init_trans ev it ot params s ts ti st = Inr (ti', st') \<Longrightarrow> r < length st \<Longrightarrow>
   set (edges (incoming (st ! r))) \<subseteq> set (edges (incoming (st' ! r)))"
proof (induction ts arbitrary: ti st)
  case Nil
  then show ?case by simp
next
  case (Cons t ts)
  from Cons.prems(1) obtain i out lw where
    d: "dest t < length st"
    and rec: "init_trans ev it ot params s ts (Suc ti)
       (insert_edge s (dest t) i out \<lparr> logWeight = lw, transIndex = ti \<rparr> st) = Inr (ti', st')"
    by (rule init_trans_Cons_Inr)
  from Cons.IH [OF rec] Cons.prems(2) insert_edge_incoming [OF Cons.prems(2) d]
  show ?case by (auto simp: length_insert_edge split: if_splits)
qed

lemma init_trans_incoming:
  "init_trans ev it ot params s ts ti st = Inr (ti', st') \<Longrightarrow> k < length ts \<Longrightarrow>
   stored_edge ev it ot params (ti + k, ts ! k) = Some (i, out, d, tr) \<Longrightarrow>
   d < length st \<and> (i, out, s, tr) \<in> set (edges (incoming (st' ! d)))"
proof (induction ts arbitrary: ti st k)
  case Nil
  then show ?case by simp
next
  case (Cons t ts)
  from Cons.prems(1) obtain i' out' lw where
    f: "sym2tok it (trans_in t) = Some i'" "sym2tok ot (trans_out t) = Some out'"
       "eval_logWeight ev params t = Inr lw" "dest t < length st"
    and rec: "init_trans ev it ot params s ts (Suc ti)
       (insert_edge s (dest t) i' out' \<lparr> logWeight = lw, transIndex = ti \<rparr> st) = Inr (ti', st')"
    by (rule init_trans_Cons_Inr)
  let ?st = "insert_edge s (dest t) i' out' \<lparr> logWeight = lw, transIndex = ti \<rparr> st"
  show ?case
  proof (cases k)
    case 0
    with Cons.prems(3) f have e: "i = i'" "out = out'" "d = dest t" "tr = \<lparr> logWeight = lw, transIndex = ti \<rparr>"
      by (simp_all add: stored_edge_def)
    have "(i, out, s, tr) \<in> set (edges (incoming (?st ! d)))"
      using insert_edge_incoming [OF f(4) f(4), of s i' out' "\<lparr> logWeight = lw, transIndex = ti \<rparr>"] e
      by simp
    moreover have "set (edges (incoming (?st ! d))) \<subseteq> set (edges (incoming (st' ! d)))"
      using rec f(4) e(3) by (intro init_trans_incoming_mono) (simp_all add: length_insert_edge)
    ultimately show ?thesis using f(4) e(3) by auto
  next
    case (Suc k')
    with Cons.prems(2,3) have "k' < length ts" "stored_edge ev it ot params (Suc ti + k', ts ! k') = Some (i, out, d, tr)"
      by simp_all
    from Cons.IH [OF rec this] show ?thesis by (simp add: length_insert_edge)
  qed
qed

lemma init_states_incoming_mono:
  "init_states ev it ot params m ss tiCum st = Inr (tiCum', st') \<Longrightarrow> \<forall>s\<in>set ss. s < length st \<Longrightarrow>
   r < length st \<Longrightarrow> set (edges (incoming (st ! r))) \<subseteq> set (edges (incoming (st' ! r)))"
proof (induction ss arbitrary: tiCum st)
  case Nil
  then show ?case by simp
next
  case (Cons s ss)
  from Cons.prems(1) obtain ti st2 where
    tr: "init_trans ev it ot params s (trans (Machine.state m ! s)) 0
       (st[s := (st ! s)\<lparr> EvaluatedMachineState.name := MachineState.name (Machine.state m ! s) \<rparr>]) = Inr (ti, st2)"
    and rec: "init_states ev it ot params m ss (tiCum + ti)
       (st2[s := (st2 ! s)\<lparr> EvaluatedMachineState.nTransitions := ti, transOffset := tiCum \<rparr>]) = Inr (tiCum', st')"
    by (rule init_states_Cons_Inr)
  let ?st1 = "st[s := (st ! s)\<lparr> EvaluatedMachineState.name := MachineState.name (Machine.state m ! s) \<rparr>]"
  let ?st3 = "st2[s := (st2 ! s)\<lparr> EvaluatedMachineState.nTransitions := ti, transOffset := tiCum \<rparr>]"
  have s: "s < length st" using Cons.prems(2) by simp
  have l2: "length st2 = length st" using init_trans_length [OF tr] by simp
  have "incoming (?st1 ! r) = incoming (st ! r)"
    using Cons.prems(3) by (cases "r = s") simp_all
  moreover have "set (edges (incoming (?st1 ! r))) \<subseteq> set (edges (incoming (st2 ! r)))"
    using tr Cons.prems(3) by (intro init_trans_incoming_mono) simp_all
  moreover have "incoming (?st3 ! r) = incoming (st2 ! r)"
    using Cons.prems(3) l2 by (cases "r = s") simp_all
  moreover have "set (edges (incoming (?st3 ! r))) \<subseteq> set (edges (incoming (st' ! r)))"
    using Cons.prems(2,3) l2 by (intro Cons.IH [OF rec]) simp_all
  ultimately show ?case by simp
qed

lemma init_states_incoming:
  "init_states ev it ot params m ss tiCum st = Inr (tiCum', st') \<Longrightarrow> \<forall>s\<in>set ss. s < length st \<Longrightarrow>
   s \<in> set ss \<Longrightarrow> k < length (trans (Machine.state m ! s)) \<Longrightarrow>
   stored_edge ev it ot params (k, trans (Machine.state m ! s) ! k) = Some (i, out, d, tr) \<Longrightarrow>
   d < length st \<and> (i, out, s, tr) \<in> set (edges (incoming (st' ! d)))"
proof (induction ss arbitrary: tiCum st)
  case Nil
  then show ?case by simp
next
  case (Cons s0 ss)
  from Cons.prems(1) obtain ti st2 where
    tr: "init_trans ev it ot params s0 (trans (Machine.state m ! s0)) 0
       (st[s0 := (st ! s0)\<lparr> EvaluatedMachineState.name := MachineState.name (Machine.state m ! s0) \<rparr>]) = Inr (ti, st2)"
    and rec: "init_states ev it ot params m ss (tiCum + ti)
       (st2[s0 := (st2 ! s0)\<lparr> EvaluatedMachineState.nTransitions := ti, transOffset := tiCum \<rparr>]) = Inr (tiCum', st')"
    by (rule init_states_Cons_Inr)
  let ?st3 = "st2[s0 := (st2 ! s0)\<lparr> EvaluatedMachineState.nTransitions := ti, transOffset := tiCum \<rparr>]"
  have l2: "length st2 = length st" using init_trans_length [OF tr] by simp
  have b3: "\<forall>s\<in>set ss. s < length ?st3" using Cons.prems(2) l2 by simp
  show ?case
  proof (cases "s = s0")
    case True
    from init_trans_incoming [OF tr, of k i out d tr] Cons.prems(4,5) True
    have d: "d < length st" and "(i, out, s, tr) \<in> set (edges (incoming (st2 ! d)))"
      by simp_all
    moreover have "incoming (?st3 ! d) = incoming (st2 ! d)"
      using d l2 by (cases "d = s0") simp_all
    moreover have "set (edges (incoming (?st3 ! d))) \<subseteq> set (edges (incoming (st' ! d)))"
      using d l2 by (intro init_states_incoming_mono [OF rec b3]) simp
    ultimately show ?thesis by auto
  next
    case False
    with Cons.prems(3) have "s \<in> set ss" by simp
    from Cons.IH [OF rec b3 this Cons.prems(4,5)] l2 show ?thesis by simp
  qed
qed

lemma evaluate_incoming:
  assumes "evaluate ev m params = Inr em" and "s < nStates m"
    and "k < length (trans (Machine.state m ! s))"
    and "stored_edge ev (inputTokenizer em) (outputTokenizer em) params (k, trans (Machine.state m ! s) ! k) = Some (i, out, d, tr)"
  shows "d < nStates m \<and> (i, out, s, tr) \<in> set (edges (incoming (EvaluatedMachine.state em ! d)))"
proof -
  from assms(1) obtain tiCum st where
    i: "init_states ev (Tokenizer_new (inputAlphabet m)) (Tokenizer_new (outputAlphabet m)) params m
       [0 ..< nStates m] 0 (replicate (nStates m) empty_state) = Inr (tiCum, st)"
    and e: "EvaluatedMachine.state em = st" "inputTokenizer em = Tokenizer_new (inputAlphabet m)"
      "outputTokenizer em = Tokenizer_new (outputAlphabet m)"
    by (rule evaluate_Inr)
  have "d < length (replicate (nStates m) empty_state) \<and> (i, out, s, tr) \<in> set (edges (incoming (st ! d)))"
    using assms(2,4) e by (intro init_states_incoming [OF i _ _ assms(3)]) simp_all
  then show ?thesis using e by simp
qed

theorem transIndex_and_transOffset_witness:
  "\<exists>em. evaluate ev_literal machine_two None = Inr em \<and>
     length (EvaluatedMachine.state em) = 2 \<and>
     EvaluatedMachine.nTransitions em = 2 \<and>
     EvaluatedMachineState.nTransitions (EvaluatedMachine.state em ! 0) = 2 \<and>
     transOffset (EvaluatedMachine.state em ! 0) = 0 \<and>
     EvaluatedMachineState.nTransitions (EvaluatedMachine.state em ! 1) = 0 \<and>
     transOffset (EvaluatedMachine.state em ! 1) = 2"
proof -
  obtain em where e: "evaluate ev_literal machine_two None = Inr em"
    by (simp add: machine_two_def evaluate_simps)
  note t = transIndex_and_transOffset [OF e]
  have n: "nStates machine_two = 2" by (simp add: nStates_def machine_two_def)
  have l: "length (EvaluatedMachine.state em) = 2"
    using t [THEN conjunct1] n by simp
  have c: "EvaluatedMachine.nTransitions em = 2"
    using t [THEN conjunct2, THEN conjunct1] by (simp add: machine_two_def)
  note per_state = t [THEN conjunct2, THEN conjunct2, THEN conjunct1, rule_format]
  have s0: "EvaluatedMachineState.nTransitions (EvaluatedMachine.state em ! 0) = 2"
    "transOffset (EvaluatedMachine.state em ! 0) = 0"
    using per_state [of 0] n by (simp_all add: machine_two_def)
  have s1: "EvaluatedMachineState.nTransitions (EvaluatedMachine.state em ! 1) = 0"
    "transOffset (EvaluatedMachine.state em ! 1) = 2"
    using per_state [of 1] n by (simp_all add: machine_two_def)
  from e l c s0 s1 show ?thesis by blast
qed

subsection \<open>The log weight of a transition\<close>

lemma eval_logWeight_Inr_iff:
  "eval_logWeight ev params t = Inr lw \<longleftrightarrow>
     (params = None \<longrightarrow> lw = Fin 0) \<and>
     (\<forall>defs. params = Some defs \<longrightarrow> (\<exists>v. ev (weight t) defs = Inr v \<and> lw = d_log v))"
  by (auto simp: eval_logWeight_def split: option.splits sum.splits)

text \<open>
  C3: in a machine built by either constructor, the \<open>k\<close>-th transition of state \<open>s\<close> is
  stored under the tokens of its labels, in \<^verbatim>\<open>outgoing\<close> of \<open>s\<close> keyed by its destination and
  in \<^verbatim>\<open>incoming\<close> of its destination keyed by \<open>s\<close>, with a log weight that is 0 when no
  parameters were supplied and the logarithm of its evaluated weight when they were; and
  every edge stored in \<^verbatim>\<open>outgoing\<close> of \<open>s\<close> is the edge of such a transition.
\<close>

theorem logWeight_of_transition:
  assumes "evaluate ev m params = Inr em" and "s < nStates m"
  shows "(\<forall>k<length (trans (Machine.state m ! s)). \<exists>i out lw.
            sym2tok (inputTokenizer em) (trans_in (trans (Machine.state m ! s) ! k)) = Some i \<and>
            sym2tok (outputTokenizer em) (trans_out (trans (Machine.state m ! s) ! k)) = Some out \<and>
            (i, out, dest (trans (Machine.state m ! s) ! k), \<lparr> logWeight = lw, transIndex = k \<rparr>)
              \<in> set (edges (outgoing (EvaluatedMachine.state em ! s))) \<and>
            (i, out, s, \<lparr> logWeight = lw, transIndex = k \<rparr>)
              \<in> set (edges (incoming (EvaluatedMachine.state em ! dest (trans (Machine.state m ! s) ! k)))) \<and>
            (params = None \<longrightarrow> lw = Fin 0) \<and>
            (\<forall>defs. params = Some defs \<longrightarrow>
               (\<exists>v. ev (weight (trans (Machine.state m ! s) ! k)) defs = Inr v \<and> lw = d_log v))) \<and>
         (\<forall>e\<in>set (edges (outgoing (EvaluatedMachine.state em ! s))).
            \<exists>k<length (trans (Machine.state m ! s)).
              transIndex (snd (snd (snd e))) = k \<and>
              (params = None \<longrightarrow> logWeight (snd (snd (snd e))) = Fin 0) \<and>
              (\<forall>defs. params = Some defs \<longrightarrow>
                 (\<exists>v. ev (weight (trans (Machine.state m ! s) ! k)) defs = Inr v \<and>
                      logWeight (snd (snd (snd e))) = d_log v)))"
proof -
  let ?ts = "trans (Machine.state m ! s)"
  let ?se = "stored_edge ev (inputTokenizer em) (outputTokenizer em) params"
  from evaluate_state(4) [OF assms] obtain es where
    es: "map Some es = map ?se (enumerate 0 ?ts)"
        "mset (edges (outgoing (EvaluatedMachine.state em ! s))) = mset es"
    by blast
  note by_index = stored_edges_by_index [OF es(1)]
  have set_es: "set (edges (outgoing (EvaluatedMachine.state em ! s))) = set es"
    using arg_cong [OF es(2), of set_mset] by simp
  have fwd: "\<exists>i out lw.
            sym2tok (inputTokenizer em) (trans_in (?ts ! k)) = Some i \<and>
            sym2tok (outputTokenizer em) (trans_out (?ts ! k)) = Some out \<and>
            (i, out, dest (?ts ! k), \<lparr> logWeight = lw, transIndex = k \<rparr>)
              \<in> set (edges (outgoing (EvaluatedMachine.state em ! s))) \<and>
            (i, out, s, \<lparr> logWeight = lw, transIndex = k \<rparr>)
              \<in> set (edges (incoming (EvaluatedMachine.state em ! dest (?ts ! k)))) \<and>
            (params = None \<longrightarrow> lw = Fin 0) \<and>
            (\<forall>defs. params = Some defs \<longrightarrow> (\<exists>v. ev (weight (?ts ! k)) defs = Inr v \<and> lw = d_log v))"
    if k: "k < length ?ts" for k
  proof -
    have se: "?se (k, ?ts ! k) = Some (es ! k)" using by_index(2) [OF k] .
    then obtain i out lw where
      e: "es ! k = (i, out, dest (?ts ! k), \<lparr> logWeight = lw, transIndex = k \<rparr>)"
         "sym2tok (inputTokenizer em) (trans_in (?ts ! k)) = Some i"
         "sym2tok (outputTokenizer em) (trans_out (?ts ! k)) = Some out"
         "eval_logWeight ev params (?ts ! k) = Inr lw"
      by (rule stored_edge_SomeD)
    have "es ! k \<in> set es" using k by_index(1) by simp
    then have o: "(i, out, dest (?ts ! k), \<lparr> logWeight = lw, transIndex = k \<rparr>)
        \<in> set (edges (outgoing (EvaluatedMachine.state em ! s)))"
      using e(1) set_es by simp
    have "(i, out, s, \<lparr> logWeight = lw, transIndex = k \<rparr>)
        \<in> set (edges (incoming (EvaluatedMachine.state em ! dest (?ts ! k))))"
      using evaluate_incoming [OF assms k] se e(1) by simp
    with o e(2,3) e(4) [unfolded eval_logWeight_Inr_iff] show ?thesis by blast
  qed
  have bwd: "\<exists>k<length ?ts. transIndex (snd (snd (snd e))) = k \<and>
              (params = None \<longrightarrow> logWeight (snd (snd (snd e))) = Fin 0) \<and>
              (\<forall>defs. params = Some defs \<longrightarrow>
                 (\<exists>v. ev (weight (?ts ! k)) defs = Inr v \<and> logWeight (snd (snd (snd e))) = d_log v))"
    if "e \<in> set (edges (outgoing (EvaluatedMachine.state em ! s)))" for e
  proof -
    from that set_es obtain k where k: "k < length es" "e = es ! k"
      by (auto simp: in_set_conv_nth)
    then have k': "k < length ?ts" using by_index(1) by simp
    from by_index(2) [OF k'] obtain i out lw where
      e: "es ! k = (i, out, dest (?ts ! k), \<lparr> logWeight = lw, transIndex = k \<rparr>)"
         "eval_logWeight ev params (?ts ! k) = Inr lw"
      by (rule stored_edge_SomeD)
    from e(2) [unfolded eval_logWeight_Inr_iff] e(1) k(2) k' show ?thesis by auto
  qed
  from fwd bwd show ?thesis by blast
qed

theorem logWeight_of_transition_witness:
  "(\<exists>em. evaluate ev_literal machine_two (Some ()) = Inr em \<and>
      (0, 1, 1, \<lparr> logWeight = Fin (ln (1 / 2)), transIndex = 0 \<rparr>)
        \<in> set (edges (outgoing (EvaluatedMachine.state em ! 0))) \<and>
      (0, 1, 0, \<lparr> logWeight = Fin (ln (1 / 2)), transIndex = 0 \<rparr>)
        \<in> set (edges (incoming (EvaluatedMachine.state em ! 1)))) \<and>
   (\<exists>em. evaluate ev_literal machine_two None = Inr em \<and>
      (0, 1, 1, \<lparr> logWeight = Fin 0, transIndex = 0 \<rparr>)
        \<in> set (edges (outgoing (EvaluatedMachine.state em ! 0))))"
proof -
  have n: "(0::nat) < nStates machine_two" "(0::nat) < length (trans (Machine.state machine_two ! 0))"
    by (simp_all add: nStates_def machine_two_def)
  obtain em where e: "evaluate ev_literal machine_two (Some ()) = Inr em"
    by (simp add: machine_two_def evaluate_simps ev_literal_def)
  have tk: "inputTokenizer em = Tokenizer_new (inputAlphabet machine_two)"
    "outputTokenizer em = Tokenizer_new (outputAlphabet machine_two)"
    using e by (auto elim: evaluate_Inr)
  from logWeight_of_transition [OF e n(1)] n(2) obtain i out lw where
    "sym2tok (inputTokenizer em) (trans_in (trans (Machine.state machine_two ! 0) ! 0)) = Some i"
    "sym2tok (outputTokenizer em) (trans_out (trans (Machine.state machine_two ! 0) ! 0)) = Some out"
    "(i, out, dest (trans (Machine.state machine_two ! 0) ! 0), \<lparr> logWeight = lw, transIndex = 0 \<rparr>)
        \<in> set (edges (outgoing (EvaluatedMachine.state em ! 0)))"
    "(i, out, 0, \<lparr> logWeight = lw, transIndex = 0 \<rparr>)
        \<in> set (edges (incoming (EvaluatedMachine.state em ! dest (trans (Machine.state machine_two ! 0) ! 0))))"
    "\<exists>v. ev_literal (weight (trans (Machine.state machine_two ! 0) ! 0)) () = Inr v \<and> lw = d_log v"
    by blast
  then have a: "(0, 1, 1, \<lparr> logWeight = Fin (ln (1 / 2)), transIndex = 0 \<rparr>)
        \<in> set (edges (outgoing (EvaluatedMachine.state em ! 0)))"
      "(0, 1, 0, \<lparr> logWeight = Fin (ln (1 / 2)), transIndex = 0 \<rparr>)
        \<in> set (edges (incoming (EvaluatedMachine.state em ! 1)))"
    by (auto simp: tk machine_two_def Tokenizer_new_def inputAlphabet_def outputAlphabet_def
          first_seen_def ev_literal_def upt_conv_Cons)
  obtain em' where e': "evaluate ev_literal machine_two None = Inr em'"
    by (simp add: machine_two_def evaluate_simps)
  have tk': "inputTokenizer em' = Tokenizer_new (inputAlphabet machine_two)"
    "outputTokenizer em' = Tokenizer_new (outputAlphabet machine_two)"
    using e' by (auto elim: evaluate_Inr)
  from logWeight_of_transition [OF e' n(1)] n(2) obtain i out lw where
    "sym2tok (inputTokenizer em') (trans_in (trans (Machine.state machine_two ! 0) ! 0)) = Some i"
    "sym2tok (outputTokenizer em') (trans_out (trans (Machine.state machine_two ! 0) ! 0)) = Some out"
    "(i, out, dest (trans (Machine.state machine_two ! 0) ! 0), \<lparr> logWeight = lw, transIndex = 0 \<rparr>)
        \<in> set (edges (outgoing (EvaluatedMachine.state em' ! 0)))"
    "lw = Fin 0"
    by blast
  then have b: "(0, 1, 1, \<lparr> logWeight = Fin 0, transIndex = 0 \<rparr>)
        \<in> set (edges (outgoing (EvaluatedMachine.state em' ! 0)))"
    by (auto simp: tk' machine_two_def Tokenizer_new_def inputAlphabet_def outputAlphabet_def
          first_seen_def upt_conv_Cons)
  from a b e e' show ?thesis by blast
qed

subsection \<open>Reading parameters\<close>

lemma read_members_numbers:
  "list_all (\<lambda>kv. is_number (snd kv)) kvs \<Longrightarrow>
   \<exists>pm'. read_members kvs pm = (None, pm') \<and>
     (\<forall>k. pm' k = (case map_of (rev kvs) k of None \<Rightarrow> pm k | Some v \<Rightarrow> Some (projr (get_double v))))"
proof (induction kvs arbitrary: pm)
  case Nil
  then show ?case by simp
next
  case (Cons kv kvs)
  obtain k v where kv: "kv = (k, v)" by (cases kv)
  from Cons.prems kv obtain r where v: "v = JNumber r"
    by (cases v) simp_all
  from Cons.prems have "list_all (\<lambda>kv. is_number (snd kv)) kvs" by simp
  from Cons.IH [OF this, of "pm(k \<mapsto> Fin r)"] obtain pm' where
    pm': "read_members kvs (pm(k \<mapsto> Fin r)) = (None, pm')"
      "\<And>k'. pm' k' = (case map_of (rev kvs) k' of None \<Rightarrow> (pm(k \<mapsto> Fin r)) k' | Some v \<Rightarrow> Some (projr (get_double v)))"
    by blast
  have "pm' k' = (case map_of (rev (kv # kvs)) k' of None \<Rightarrow> pm k' | Some v \<Rightarrow> Some (projr (get_double v)))" for k'
    using pm'(2) [of k'] by (simp add: kv v map_add_def split: option.splits)
  with pm'(1) show ?case by (simp add: kv v)
qed

text \<open>
  C10: \<^verbatim>\<open>readJson\<close> validates before it clears. When the document does not validate, the
  call stops with the schema error and the object still has the bindings it had. When it
  validates, the document is an object, the call succeeds, and the new map binds a name to
  a number exactly when the object has that member with that value, whatever the map held
  before. (A JSON object holds each key once.)
\<close>

theorem readJson_validates_before_clearing:
  "(\<not> validate_params pj \<longrightarrow> readJson pj p = (Some SchemaViolation, p)) \<and>
   (validate_params pj \<longrightarrow>
      (\<exists>kvs. pj = JObject kvs \<and> fst (readJson pj p) = None \<and>
         (distinct (map fst kvs) \<longrightarrow>
            (\<forall>k x. param (snd (readJson pj p)) k = Some x \<longleftrightarrow>
                   (\<exists>r. (k, JNumber r) \<in> set kvs \<and> x = Fin r)))))"
proof (intro conjI impI)
  assume "\<not> validate_params pj"
  then show "readJson pj p = (Some SchemaViolation, p)"
    by (simp add: readJson_def)
next
  assume v: "validate_params pj"
  then obtain kvs where pj: "pj = JObject kvs" and nums: "list_all (\<lambda>kv. is_number (snd kv)) kvs"
    by (cases pj) simp_all
  from read_members_numbers [OF nums, of Map.empty] obtain pm' where
    pm': "read_members kvs Map.empty = (None, pm')"
      "\<And>k. pm' k = (case map_of (rev kvs) k of None \<Rightarrow> None | Some v \<Rightarrow> Some (projr (get_double v)))"
    by auto
  have r: "readJson pj p = (None, p\<lparr> param := pm' \<rparr>)"
    using v pm'(1) by (simp add: readJson_def pj)
  have "(pm' k = Some x) \<longleftrightarrow> (\<exists>r. (k, JNumber r) \<in> set kvs \<and> x = Fin r)"
    if d: "distinct (map fst kvs)" for k x
  proof -
    have m: "map_of (rev kvs) k = map_of kvs k"
      using d by (intro map_of_inject_set [THEN iffD2, THEN fun_cong]) (simp_all add: rev_map [symmetric])
    show ?thesis
    proof
      assume "pm' k = Some x"
      with pm'(2) [of k] m obtain v where v: "map_of kvs k = Some v" "projr (get_double v) = x"
        by (auto split: option.splits)
      from v(1) have mem: "(k, v) \<in> set kvs" by (rule map_of_SomeD)
      with nums obtain r where "v = JNumber r"
        by (cases v) (auto simp: list_all_iff)
      with v(2) mem show "\<exists>r. (k, JNumber r) \<in> set kvs \<and> x = Fin r" by auto
    next
      assume "\<exists>r. (k, JNumber r) \<in> set kvs \<and> x = Fin r"
      then obtain r where "(k, JNumber r) \<in> set kvs" "x = Fin r" by blast
      with d have "map_of kvs k = Some (JNumber r)" by simp
      with pm'(2) [of k] m \<open>x = Fin r\<close> show "pm' k = Some x" by simp
    qed
  qed
  with r pj show "\<exists>kvs. pj = JObject kvs \<and> fst (readJson pj p) = None \<and>
         (distinct (map fst kvs) \<longrightarrow>
            (\<forall>k x. param (snd (readJson pj p)) k = Some x \<longleftrightarrow>
                   (\<exists>r. (k, JNumber r) \<in> set kvs \<and> x = Fin r)))"
    by simp
qed


theorem readJson_validates_before_clearing_witness:
  "\<not> validate_params (JObject [(''p'', JString ''x'')]) \<and>
   readJson (JObject [(''p'', JString ''x'')]) \<lparr> param = [''old'' \<mapsto> Fin 1] \<rparr> =
     (Some SchemaViolation, \<lparr> param = [''old'' \<mapsto> Fin 1] \<rparr>) \<and>
   validate_params (JObject [(''p'', JNumber (1 / 4)), (''q'', JNumber 2)]) \<and>
   fst (readJson (JObject [(''p'', JNumber (1 / 4)), (''q'', JNumber 2)]) \<lparr> param = [''old'' \<mapsto> Fin 1] \<rparr>) = None \<and>
   param (snd (readJson (JObject [(''p'', JNumber (1 / 4)), (''q'', JNumber 2)]) \<lparr> param = [''old'' \<mapsto> Fin 1] \<rparr>)) ''p''
     = Some (Fin (1 / 4)) \<and>
   param (snd (readJson (JObject [(''p'', JNumber (1 / 4)), (''q'', JNumber 2)]) \<lparr> param = [''old'' \<mapsto> Fin 1] \<rparr>)) ''old''
     = None"
proof -
  let ?bad = "JObject [(''p'', JString ''x'')]"
  let ?good = "JObject [(''p'', JNumber (1 / 4)), (''q'', JNumber 2)]"
  let ?p = "\<lparr> param = [''old'' \<mapsto> Fin 1] \<rparr>"
  have nb: "\<not> validate_params ?bad" and vg: "validate_params ?good"
    by simp_all
  from readJson_validates_before_clearing [of ?bad ?p] nb
  have b: "readJson ?bad ?p = (Some SchemaViolation, ?p)" by blast
  from readJson_validates_before_clearing [of ?good ?p] vg
  obtain kvs where k: "?good = JObject kvs" "fst (readJson ?good ?p) = None"
    "distinct (map fst kvs) \<longrightarrow>
       (\<forall>k x. param (snd (readJson ?good ?p)) k = Some x \<longleftrightarrow> (\<exists>r. (k, JNumber r) \<in> set kvs \<and> x = Fin r))"
    by blast
  from k(1) have kvs: "kvs = [(''p'', JNumber (1 / 4)), (''q'', JNumber 2)]" by simp
  from k(3) have iff: "param (snd (readJson ?good ?p)) k = Some x \<longleftrightarrow>
      (\<exists>r. (k, JNumber r) \<in> set kvs \<and> x = Fin r)" for k x
    by (simp add: kvs)
  have "\<exists>r. (''p'', JNumber r) \<in> set kvs \<and> Fin (1 / 4) = Fin r"
    by (rule exI [of _ "1 / 4"]) (simp add: kvs)
  then have g1: "param (snd (readJson ?good ?p)) ''p'' = Some (Fin (1 / 4))"
    by (simp only: iff)
  have "param (snd (readJson ?good ?p)) ''old'' \<noteq> Some x" for x
    by (simp add: iff kvs)
  then have g2: "param (snd (readJson ?good ?p)) ''old'' = None" by auto
  from nb b vg k(2) g1 g2 show ?thesis by blast
qed

subsection \<open>The loops of \<^verbatim>\<open>explicitMachine\<close>\<close>

lemma push_stm_eq:
  assumes "stm \<noteq> [] \<longrightarrow> i < length (tok2sym it) \<and> out < length (tok2sym ot)"
  shows "push_stm lit it ot i out stm ts =
         Inr (ts @ map (\<lambda>(d, t). edge_transition lit it ot (i, out, d, t)) stm)"
  using assms
proof (induction stm arbitrary: ts)
  case Nil
  then show ?case by simp
next
  case (Cons p stm)
  obtain d t where p: "p = (d, t)" by (cases p)
  from Cons.prems have b: "i < length (tok2sym it)" "out < length (tok2sym ot)" by simp_all
  then have "stm \<noteq> [] \<longrightarrow> i < length (tok2sym it) \<and> out < length (tok2sym ot)" by simp
  from Cons.IH [OF this] b show ?case
    by (simp add: p edge_transition_def)
qed

lemma push_ostm_eq:
  assumes "wf_ostm n (length (tok2sym ot)) ostm" and "i < length (tok2sym it)"
  shows "push_ostm lit it ot i ostm ts = Inr (ts @ map (edge_transition lit it ot) (edges_out i ostm))"
  using assms(1)
proof (induction ostm arbitrary: ts)
  case Nil
  then show ?case by (simp add: edges_out_Nil)
next
  case (Cons p ostm)
  obtain out stm where p: "p = (out, stm)" by (cases p)
  from Cons.prems have o: "out < length (tok2sym ot)" and w: "wf_ostm n (length (tok2sym ot)) ostm"
    by (simp_all add: wf_ostm_def p)
  have "push_stm lit it ot i out stm ts =
         Inr (ts @ map (\<lambda>(d, t). edge_transition lit it ot (i, out, d, t)) stm)"
    using o assms(2) by (intro push_stm_eq) simp
  with Cons.IH [OF w] show ?case
    by (simp add: p edges_out_Cons comp_def case_prod_beta)
qed

lemma push_iostm_eq:
  assumes "wf_iostm n (length (tok2sym it)) (length (tok2sym ot)) iostm"
  shows "push_iostm lit it ot iostm ts = Inr (ts @ map (edge_transition lit it ot) (edges iostm))"
  using assms
proof (induction iostm arbitrary: ts)
  case Nil
  then show ?case by (simp add: edges_Nil)
next
  case (Cons p iostm)
  obtain i ostm where p: "p = (i, ostm)" by (cases p)
  from Cons.prems have i: "i < length (tok2sym it)" and wo: "wf_ostm n (length (tok2sym ot)) ostm"
    and w: "wf_iostm n (length (tok2sym it)) (length (tok2sym ot)) iostm"
    by (simp_all add: wf_iostm_def p)
  from push_ostm_eq [OF wo i, of lit ts] Cons.IH [OF w] show ?case
    by (simp add: p edges_Cons)
qed

lemma explicit_states_eq:
  assumes "list_all (\<lambda>ems. wf_iostm n (length (tok2sym it)) (length (tok2sym ot)) (outgoing ems)) st"
  shows "explicit_states lit it ot st =
     Inr (map (\<lambda>ems. \<lparr> MachineState.name = EvaluatedMachineState.name ems,
                       trans = map (edge_transition lit it ot) (edges (outgoing ems)) \<rparr>) st)"
  using assms
proof (induction st)
  case Nil
  then show ?case by simp
next
  case (Cons ems st)
  from Cons.prems have "push_iostm lit it ot (outgoing ems) [] =
      Inr ([] @ map (edge_transition lit it ot) (edges (outgoing ems)))"
    by (intro push_iostm_eq [of n]) simp
  with Cons show ?case by simp
qed

lemma explicitMachine_eq:
  assumes "wf_em em"
  shows "explicitMachine lit em =
     Inr \<lparr> Machine.state =
             map (\<lambda>ems. \<lparr> MachineState.name = EvaluatedMachineState.name ems,
                          trans = map (edge_transition lit (inputTokenizer em) (outputTokenizer em))
                                    (edges (outgoing ems)) \<rparr>)
               (EvaluatedMachine.state em) \<rparr>"
  using explicit_states_eq [OF assms [unfolded wf_em_def], of lit]
  by (simp add: explicitMachine_def)

subsection \<open>The order of the stored edges\<close>

lemma edges_out_keys:
  "e \<in> set (edges_out i ostm) \<Longrightarrow> fst e = i \<and> fst (snd e) \<in> fst ` set ostm"
  by (induction ostm) (auto simp: edges_out_Nil edges_out_Cons)

lemma edges_keys: "e \<in> set (edges iostm) \<Longrightarrow> fst e \<in> fst ` set iostm"
  by (induction iostm) (auto simp: edges_Nil edges_Cons dest: edges_out_keys)

lemma sorted_edges_out:
  assumes "wf_ostm n no ostm"
  shows "sorted (map edge_key (edges_out i ostm))"
  using assms
proof (induction ostm)
  case Nil
  then show ?case by (simp add: edges_out_Nil)
next
  case (Cons p ostm)
  obtain out stm where p: "p = (out, stm)" by (cases p)
  from Cons.prems have w: "wf_ostm n no ostm" and s: "sorted (map fst stm)"
    and lt: "\<forall>x\<in>set ostm. out < fst x"
    by (auto simp: wf_ostm_def p)
  have a: "sorted (map edge_key (map (\<lambda>(d, t). (i, out, d, t)) stm))"
    using s by (induction stm) (auto simp: edge_key_def less_eq_prod_def)
  have b: "edge_key x \<le> edge_key y"
    if "x \<in> set (map (\<lambda>(d, t). (i, out, d, t)) stm)" "y \<in> set (edges_out i ostm)" for x y
  proof -
    from that(2) have "fst y = i" "fst (snd y) \<in> fst ` set ostm" by (auto dest: edges_out_keys)
    with lt have "fst y = i" "out < fst (snd y)" by auto
    with that(1) show ?thesis
      by (cases y) (auto simp: edge_key_def less_eq_prod_def less_prod_def)
  qed
  from a b Cons.IH [OF w] show ?case
    by (simp add: p edges_out_Cons sorted_append del: map_map)
qed

lemma sorted_edges:
  assumes "wf_iostm n ni no iostm"
  shows "sorted (map edge_key (edges iostm))"
  using assms
proof (induction iostm)
  case Nil
  then show ?case by (simp add: edges_Nil)
next
  case (Cons p iostm)
  obtain i ostm where p: "p = (i, ostm)" by (cases p)
  from Cons.prems have w: "wf_iostm n ni no iostm" and wo: "wf_ostm n no ostm"
    and lt: "\<forall>x\<in>set iostm. i < fst x"
    by (auto simp: wf_iostm_def p)
  have b: "edge_key x \<le> edge_key y"
    if "x \<in> set (edges_out i ostm)" "y \<in> set (edges iostm)" for x y
  proof -
    from edges_keys [OF that(2)] lt have "i < fst y" by auto
    moreover from that(1) have "fst x = i" by (auto dest: edges_out_keys)
    ultimately show ?thesis
      by (cases x; cases y) (auto simp: edge_key_def less_eq_prod_def)
  qed
  from sorted_edges_out [OF wo, of i] b Cons.IH [OF w] show ?case
    by (simp add: p edges_Cons sorted_append)
qed

text \<open>An insertion puts the new edge behind the stored edges that have its key.\<close>

lemma filter_multimap_insert:
  assumes "sorted (map fst stm)"
  shows "filter (\<lambda>p. fst p = k) (multimap_insert d tr stm) =
         filter (\<lambda>p. fst p = k) stm @ (if k = d then [(d, tr)] else [])"
  using assms
proof (induction stm)
  case Nil
  then show ?case by auto
next
  case (Cons p stm)
  obtain a b where p: "p = (a, b)" by (cases p)
  show ?case
  proof (cases "d < a")
    case True
    with Cons.prems have "\<forall>x\<in>set (p # stm). d < fst x" by (auto simp: p)
    then have "filter (\<lambda>p. fst p = d) (p # stm) = []"
      by (auto simp: filter_empty_conv)
    with True show ?thesis by (auto simp: p)
  next
    case False
    with Cons show ?thesis by (auto simp: p)
  qed
qed

lemma filter_edges_out_modify:
  assumes "wf_ostm n no ostm"
  shows "filter (\<lambda>e. edge_key e = k) (edges_out i (map_modify out (multimap_insert d tr) ostm)) =
         filter (\<lambda>e. edge_key e = k) (edges_out i ostm) @ (if k = (i, out, d) then [(i, out, d, tr)] else [])"
  using assms
proof (induction ostm)
  case Nil
  then show ?case by (auto simp: edges_out_Nil edges_out_Cons edge_key_def)
next
  case (Cons p ostm)
  obtain a stm where p: "p = (a, stm)" by (cases p)
  from Cons.prems have w: "wf_ostm n no ostm" and s: "sorted (map fst stm)"
    and lt: "\<forall>x\<in>set ostm. a < fst x"
    by (auto simp: wf_ostm_def p)
  have later: "filter (\<lambda>e. edge_key e = (i, o', d')) (edges_out i ostm) = []" if "o' \<le> a" for o' d'
  proof -
    have "edge_key e \<noteq> (i, o', d')" if "e \<in> set (edges_out i ostm)" for e
      using edges_out_keys [OF that] lt \<open>o' \<le> a\<close> by (cases e) (auto simp: edge_key_def)
    then show ?thesis by (auto simp: filter_empty_conv)
  qed
  have here: "filter (\<lambda>e. edge_key e = (i, o', d')) (map (\<lambda>(d, t). (i, a, d, t)) stm) = []" if "o' \<noteq> a" for o' d'
    using that by (auto simp: filter_empty_conv edge_key_def)
  obtain ki ko kd where k: "k = (ki, ko, kd)" by (cases k)
  have map_f: "filter (\<lambda>e. edge_key e = (ki, ko, kd)) (map (\<lambda>(d, t). (i, a, d, t)) xs) =
      (if ki = i \<and> ko = a
       then map (\<lambda>(d, t). (i, a, d, t)) (filter (\<lambda>p. fst p = kd) xs) else [])" for xs
    by (induction xs) (auto simp: edge_key_def)
  consider "out < a" | "out = a" | "a < out" by linarith
  then show ?case
  proof cases
    case 1
    then show ?thesis
      using later [of out d] here [of out d]
      by (auto simp: p edges_out_Cons edges_out_Nil edge_key_def)
  next
    case 2
    then show ?thesis
      using later [of a d] filter_multimap_insert [OF s, of kd d tr]
      by (auto simp: p k edges_out_Cons map_f)
  next
    case 3
    then show ?thesis
      using Cons.IH [OF w] here [of out d]
      by (auto simp: p edges_out_Cons)
  qed
qed

lemma filter_edges_insert_trans:
  assumes "wf_iostm n ni no iostm"
  shows "filter (\<lambda>e. edge_key e = k) (edges (insert_trans i out d tr iostm)) =
         filter (\<lambda>e. edge_key e = k) (edges iostm) @ (if k = (i, out, d) then [(i, out, d, tr)] else [])"
  using assms unfolding insert_trans_def
proof (induction iostm)
  case Nil
  then show ?case by (auto simp: edges_Nil edges_Cons edges_out_Nil edges_out_Cons edge_key_def)
next
  case (Cons p iostm)
  obtain a ostm where p: "p = (a, ostm)" by (cases p)
  from Cons.prems have w: "wf_iostm n ni no iostm" and wo: "wf_ostm n no ostm"
    and lt: "\<forall>x\<in>set iostm. a < fst x"
    by (auto simp: wf_iostm_def p)
  have later: "filter (\<lambda>e. edge_key e = (i', o', d')) (edges iostm) = []" if "i' \<le> a" for i' o' d'
  proof -
    have "edge_key e \<noteq> (i', o', d')" if "e \<in> set (edges iostm)" for e
      using edges_keys [OF that] lt \<open>i' \<le> a\<close> by (cases e) (auto simp: edge_key_def)
    then show ?thesis by (auto simp: filter_empty_conv)
  qed
  have here: "filter (\<lambda>e. edge_key e = (i', o', d')) (edges_out a ostm) = []" if "i' \<noteq> a" for i' o' d'
  proof -
    have "edge_key e \<noteq> (i', o', d')" if "e \<in> set (edges_out a ostm)" for e
      using edges_out_keys [OF that] \<open>i' \<noteq> a\<close> by (cases e) (auto simp: edge_key_def)
    then show ?thesis by (auto simp: filter_empty_conv)
  qed
  consider "i < a" | "i = a" | "a < i" by linarith
  then show ?case
  proof cases
    case 1
    then show ?thesis
      using later [of i out d] here [of i out d]
      by (auto simp: p edges_Cons edges_out_Cons edges_out_Nil edge_key_def)
  next
    case 2
    then show ?thesis
      using later [of a out d] filter_edges_out_modify [OF wo, of k a out d tr]
      by (auto simp: p edges_Cons)
  next
    case 3
    then show ?thesis
      using Cons.IH [OF w] here [of i out d]
      by (auto simp: p edges_Cons)
  qed
qed

lemma init_trans_filter:
  assumes "wf_tokenizer it" "wf_tokenizer ot"
  shows "init_trans ev it ot params s ts ti st = Inr (ti', st') \<Longrightarrow> s < length st \<Longrightarrow>
   wf_iostm (length st) (length (tok2sym it)) (length (tok2sym ot)) (outgoing (st ! s)) \<Longrightarrow>
   map Some es = map (stored_edge ev it ot params) (enumerate ti ts) \<Longrightarrow>
   filter (\<lambda>e. edge_key e = k) (edges (outgoing (st' ! s))) =
   filter (\<lambda>e. edge_key e = k) (edges (outgoing (st ! s))) @ filter (\<lambda>e. edge_key e = k) es"
proof (induction ts arbitrary: ti st es)
  case Nil
  then show ?case by simp
next
  case (Cons t ts)
  from Cons.prems(1) obtain i out lw where
    f: "sym2tok it (trans_in t) = Some i" "sym2tok ot (trans_out t) = Some out"
       "eval_logWeight ev params t = Inr lw" "dest t < length st"
    and rec: "init_trans ev it ot params s ts (Suc ti)
       (insert_edge s (dest t) i out \<lparr> logWeight = lw, transIndex = ti \<rparr> st) = Inr (ti', st')"
    by (rule init_trans_Cons_Inr)
  let ?tr = "\<lparr> logWeight = lw, transIndex = ti \<rparr>"
  let ?st = "insert_edge s (dest t) i out ?tr st"
  have b: "i < length (tok2sym it)" "out < length (tok2sym ot)"
    using f assms by (auto simp: wf_tokenizer_def)
  have e: "stored_edge ev it ot params (ti, t) = Some (i, out, dest t, ?tr)"
    by (simp add: stored_edge_def f)
  with Cons.prems(4) obtain es' where
    es: "es = (i, out, dest t, ?tr) # es'"
        "map Some es' = map (stored_edge ev it ot params) (enumerate (Suc ti) ts)"
    by (cases es) auto
  have o: "outgoing (?st ! s) = insert_trans i out (dest t) ?tr (outgoing (st ! s))"
    using Cons.prems(2) by (simp add: insert_edge_frame)
  have w: "wf_iostm (length ?st) (length (tok2sym it)) (length (tok2sym ot)) (outgoing (?st ! s))"
    using Cons.prems(3) b f(4) by (simp add: o length_insert_edge wf_iostm_insert_trans)
  have "filter (\<lambda>e. edge_key e = k) (edges (outgoing (st' ! s))) =
      filter (\<lambda>e. edge_key e = k) (edges (outgoing (?st ! s))) @ filter (\<lambda>e. edge_key e = k) es'"
    using Cons.prems(2) by (intro Cons.IH [OF rec _ w es(2)]) (simp add: length_insert_edge)
  also have "filter (\<lambda>e. edge_key e = k) (edges (outgoing (?st ! s))) =
      filter (\<lambda>e. edge_key e = k) (edges (outgoing (st ! s))) @
        (if k = (i, out, dest t) then [(i, out, dest t, ?tr)] else [])"
    unfolding o using Cons.prems(3) by (rule filter_edges_insert_trans)
  finally show ?case
    by (auto simp: es(1) edge_key_def)
qed

lemma init_states_elem_run:
  "init_states ev it ot params m ss tiCum st = Inr (tiCum', st') \<Longrightarrow> \<forall>s\<in>set ss. s < length st \<Longrightarrow>
   distinct ss \<Longrightarrow> s \<in> set ss \<Longrightarrow>
   \<exists>ti st0 st2. init_trans ev it ot params s (trans (Machine.state m ! s)) 0 st0 = Inr (ti, st2) \<and>
      length st0 = length st \<and> outgoing (st0 ! s) = outgoing (st ! s) \<and>
      outgoing (st' ! s) = outgoing (st2 ! s)"
proof (induction ss arbitrary: tiCum st)
  case Nil
  then show ?case by simp
next
  case (Cons s0 ss)
  from Cons.prems(1) obtain ti st2 where
    tr: "init_trans ev it ot params s0 (trans (Machine.state m ! s0)) 0
       (st[s0 := (st ! s0)\<lparr> EvaluatedMachineState.name := MachineState.name (Machine.state m ! s0) \<rparr>]) = Inr (ti, st2)"
    and rec: "init_states ev it ot params m ss (tiCum + ti)
       (st2[s0 := (st2 ! s0)\<lparr> EvaluatedMachineState.nTransitions := ti, transOffset := tiCum \<rparr>]) = Inr (tiCum', st')"
    by (rule init_states_Cons_Inr)
  let ?st1 = "st[s0 := (st ! s0)\<lparr> EvaluatedMachineState.name := MachineState.name (Machine.state m ! s0) \<rparr>]"
  let ?st3 = "st2[s0 := (st2 ! s0)\<lparr> EvaluatedMachineState.nTransitions := ti, transOffset := tiCum \<rparr>]"
  have s0: "s0 < length st" using Cons.prems(2) by simp
  have l2: "length st2 = length st" using init_trans_length [OF tr] by simp
  have b3: "\<forall>s\<in>set ss. s < length ?st3" using Cons.prems(2) l2 by simp
  show ?case
  proof (cases "s = s0")
    case True
    have "s0 \<notin> set ss" using Cons.prems(3) by simp
    from init_states_frame [OF rec b3 _ this] s0 l2
    have "outgoing (st' ! s0) = outgoing (st2 ! s0)" by simp
    moreover have "outgoing (?st1 ! s0) = outgoing (st ! s0)" using s0 by simp
    ultimately show ?thesis using tr True by (intro exI [of _ ti] exI [of _ ?st1] exI [of _ st2]) simp
  next
    case False
    with Cons.prems(3,4) have "distinct ss" "s \<in> set ss" by simp_all
    from Cons.IH [OF rec b3 this] obtain ti' st0 st2' where
      r: "init_trans ev it ot params s (trans (Machine.state m ! s)) 0 st0 = Inr (ti', st2')"
         "length st0 = length ?st3" "outgoing (st0 ! s) = outgoing (?st3 ! s)"
         "outgoing (st' ! s) = outgoing (st2' ! s)"
      by blast
    have lt: "s < length st" using Cons.prems(2,4) by auto
    have "outgoing (?st3 ! s) = outgoing (st ! s)"
      using init_states_round(7) [OF tr s0 refl lt False] by simp
    with r l2 show ?thesis by (intro exI [of _ ti'] exI [of _ st0] exI [of _ st2']) simp
  qed
qed

text \<open>
  The edges stored for a state are the edges of its transitions in the order of their keys,
  edges with the same key in the order of the transitions.
\<close>

lemma evaluate_edges_sorted:
  assumes "evaluate ev m params = Inr em" and "s < nStates m"
    and es: "map Some es = map (stored_edge ev (inputTokenizer em) (outputTokenizer em) params)
                             (enumerate 0 (trans (Machine.state m ! s)))"
  shows "edges (outgoing (EvaluatedMachine.state em ! s)) = sort_key edge_key es"
proof -
  let ?it = "Tokenizer_new (inputAlphabet m)" and ?ot = "Tokenizer_new (outputAlphabet m)"
  from assms(1) obtain tiCum st where
    i: "init_states ev ?it ?ot params m [0 ..< nStates m] 0 (replicate (nStates m) empty_state) = Inr (tiCum, st)"
    and e: "EvaluatedMachine.state em = st" "inputTokenizer em = ?it" "outputTokenizer em = ?ot"
    by (rule evaluate_Inr)
  from init_states_elem_run [OF i, of s] assms(2) obtain ti st0 st2 where
    r: "init_trans ev ?it ?ot params s (trans (Machine.state m ! s)) 0 st0 = Inr (ti, st2)"
       "length st0 = nStates m" "outgoing (st0 ! s) = []" "outgoing (st ! s) = outgoing (st2 ! s)"
    by (auto simp: empty_state_def)
  have f: "filter (\<lambda>x. edge_key x = k) (edges (outgoing (st ! s))) = filter (\<lambda>x. edge_key x = k) es" for k
    using init_trans_filter [OF wf_Tokenizer_new wf_Tokenizer_new r(1), of es k] assms(2) r(2,3,4) es
    by (simp add: e wf_iostm_def edges_Nil)
  from evaluate_state(4) [OF assms(1,2)] obtain es' where
    es': "map Some es' = map (stored_edge ev (inputTokenizer em) (outputTokenizer em) params)
                             (enumerate 0 (trans (Machine.state m ! s)))"
        "mset (edges (outgoing (EvaluatedMachine.state em ! s))) = mset es'"
    by blast
  from es es'(1) have "map Some es' = map Some es" by simp
  then have "es' = es" by (simp add: map_injective)
  with es'(2) have ms: "mset (edges (outgoing (st ! s))) = mset es" by (simp add: e)
  have w: "wf_iostm (length st) (length (tok2sym ?it)) (length (tok2sym ?ot)) (outgoing (st ! s))"
    using evaluate_wf [OF assms(1)] evaluate_length [OF assms(1)] assms(2)
    by (simp add: wf_em_def e list_all_length)
  have "sort_key edge_key es = edges (outgoing (st ! s))"
  proof (rule properties_for_sort_key)
    show "mset (edges (outgoing (st ! s))) = mset es" by (rule ms)
    show "sorted (map edge_key (edges (outgoing (st ! s))))" using w by (rule sorted_edges)
    show "filter (\<lambda>x. edge_key k = edge_key x) (edges (outgoing (st ! s))) =
          filter (\<lambda>x. edge_key k = edge_key x) es" for k
      using f [of "edge_key k"] by (simp add: eq_commute)
  qed
  then show ?thesis by (simp add: e)
qed

subsection \<open>The machine \<^verbatim>\<open>explicitMachine\<close> returns\<close>

lemma edge_transition_stored:
  assumes "wf_tokenizer it" "wf_tokenizer ot"
    and "stored_edge ev it ot params (k, t) = Some e"
  shows "\<exists>lw. eval_logWeight ev params t = Inr lw \<and> logWeight (snd (snd (snd e))) = lw \<and>
           transIndex (snd (snd (snd e))) = k \<and>
           edge_transition lit it ot e = t\<lparr> weight := lit (d_exp lw) \<rparr>"
proof -
  from assms(3) obtain i out lw where
    e: "e = (i, out, dest t, \<lparr> logWeight = lw, transIndex = k \<rparr>)"
       "sym2tok it (trans_in t) = Some i" "sym2tok ot (trans_out t) = Some out"
       "eval_logWeight ev params t = Inr lw"
    by (rule stored_edge_SomeD)
  from e(2,3) assms(1,2) have "tok2sym it ! i = trans_in t" "tok2sym ot ! out = trans_out t"
    by (simp_all add: wf_tokenizer_def)
  then have "edge_transition lit it ot e = t\<lparr> weight := lit (d_exp lw) \<rparr>"
    by (cases t) (simp add: edge_transition_def e(1))
  with e(1,4) show ?thesis by simp
qed

text \<open>
  C4, as the spec states it: the transitions of a reconstructed state are in the order the
  source emitted them, the order \<^verbatim>\<open>transIndex\<close> records. In the machine below the first
  state emits a transition to state 1 and then one to state 0, with the same labels. They
  are stored with \<^verbatim>\<open>transIndex\<close> 0 and 1, and \<^verbatim>\<open>explicitMachine\<close> returns the one to state 0
  first: it walks the nested maps, which are ordered by input token, output token and
  destination, and never reads \<^verbatim>\<open>transIndex\<close>.
\<close>

theorem explicitMachine_order_counterexample:
  "\<exists>em m'. evaluate ev_literal machine_two (Some ()) = Inr em \<and>
     explicitMachine lit_real em = Inr m' \<and>
     map dest (trans (Machine.state machine_two ! 0)) = [1, 0] \<and>
     map dest (trans (Machine.state m' ! 0)) = [0, 1] \<and>
     map weight (trans (Machine.state machine_two ! 0)) = [1 / 2, 1 / 4] \<and>
     map weight (trans (Machine.state m' ! 0)) = [1 / 4, 1 / 2] \<and>
     map (\<lambda>e. transIndex (snd (snd (snd e)))) (edges (outgoing (EvaluatedMachine.state em ! 0))) = [1, 0]"
  by (simp add: machine_two_def evaluate_simps ev_literal_def explicitMachine_def lit_real_def
        edges_def edges_out_def)

text \<open>
  C4, amended: for a machine built by either constructor, \<^verbatim>\<open>explicitMachine\<close> returns a
  machine with as many states as the source and the same state names. With \<open>es\<close> the edges
  stored for a state in the order the source emitted its transitions (the \<open>k\<close>-th carries
  \<^verbatim>\<open>transIndex\<close> \<open>k\<close>, and turned back into a transition it is the \<open>k\<close>-th transition of the
  source with the literal \<^verbatim>\<open>exp (logWeight)\<close> as its weight), the transitions of the
  reconstructed state are \<open>es\<close> sorted by input token, output token and destination,
  edges that agree in all three staying in emission order.
\<close>

theorem explicitMachine_reconstruction:
  assumes "evaluate ev m params = Inr em"
  shows "\<exists>m'. explicitMachine lit em = Inr m' \<and>
     length (Machine.state m') = nStates m \<and>
     (\<forall>s<nStates m.
        MachineState.name (Machine.state m' ! s) = EvaluatedMachineState.name (EvaluatedMachine.state em ! s) \<and>
        MachineState.name (Machine.state m' ! s) = MachineState.name (Machine.state m ! s) \<and>
        (\<exists>es. length es = length (trans (Machine.state m ! s)) \<and>
              (\<forall>k<length es. \<exists>lw.
                  eval_logWeight ev params (trans (Machine.state m ! s) ! k) = Inr lw \<and>
                  logWeight (snd (snd (snd (es ! k)))) = lw \<and>
                  transIndex (snd (snd (snd (es ! k)))) = k \<and>
                  edge_transition lit (inputTokenizer em) (outputTokenizer em) (es ! k) =
                    (trans (Machine.state m ! s) ! k)\<lparr> weight := lit (d_exp lw) \<rparr>) \<and>
              trans (Machine.state m' ! s) =
                map (edge_transition lit (inputTokenizer em) (outputTokenizer em)) (sort_key edge_key es)))"
proof -
  let ?it = "inputTokenizer em" and ?ot = "outputTokenizer em"
  let ?m' = "\<lparr> Machine.state =
             map (\<lambda>ems. \<lparr> MachineState.name = EvaluatedMachineState.name ems,
                          trans = map (edge_transition lit ?it ?ot) (edges (outgoing ems)) \<rparr>)
               (EvaluatedMachine.state em) \<rparr>"
  have x: "explicitMachine lit em = Inr ?m'"
    using evaluate_wf [OF assms] by (rule explicitMachine_eq)
  have l: "length (EvaluatedMachine.state em) = nStates m"
    using assms by (rule evaluate_length)
  have tk: "wf_tokenizer ?it" "wf_tokenizer ?ot"
    using assms by (auto elim!: evaluate_Inr simp: wf_Tokenizer_new)
  have per_state: "MachineState.name (Machine.state ?m' ! s) = EvaluatedMachineState.name (EvaluatedMachine.state em ! s) \<and>
        MachineState.name (Machine.state ?m' ! s) = MachineState.name (Machine.state m ! s) \<and>
        (\<exists>es. length es = length (trans (Machine.state m ! s)) \<and>
              (\<forall>k<length es. \<exists>lw.
                  eval_logWeight ev params (trans (Machine.state m ! s) ! k) = Inr lw \<and>
                  logWeight (snd (snd (snd (es ! k)))) = lw \<and>
                  transIndex (snd (snd (snd (es ! k)))) = k \<and>
                  edge_transition lit ?it ?ot (es ! k) =
                    (trans (Machine.state m ! s) ! k)\<lparr> weight := lit (d_exp lw) \<rparr>) \<and>
              trans (Machine.state ?m' ! s) = map (edge_transition lit ?it ?ot) (sort_key edge_key es))"
    if s: "s < nStates m" for s
  proof -
    let ?ts = "trans (Machine.state m ! s)"
    from evaluate_state(4) [OF assms s] obtain es where
      es: "map Some es = map (stored_edge ev ?it ?ot params) (enumerate 0 ?ts)"
      by blast
    note by_index = stored_edges_by_index [OF es]
    have a: "\<exists>lw. eval_logWeight ev params (?ts ! k) = Inr lw \<and>
                  logWeight (snd (snd (snd (es ! k)))) = lw \<and>
                  transIndex (snd (snd (snd (es ! k)))) = k \<and>
                  edge_transition lit ?it ?ot (es ! k) = (?ts ! k)\<lparr> weight := lit (d_exp lw) \<rparr>"
      if "k < length es" for k
      using edge_transition_stored [OF tk by_index(2)] that by_index(1) by simp
    have b: "trans (Machine.state ?m' ! s) = map (edge_transition lit ?it ?ot) (sort_key edge_key es)"
      using evaluate_edges_sorted [OF assms s es] s l by simp
    have c: "MachineState.name (Machine.state ?m' ! s) = EvaluatedMachineState.name (EvaluatedMachine.state em ! s)"
      using s l by simp
    from a b c evaluate_state(1) [OF assms s] by_index(1) show ?thesis by auto
  qed
  have "length (Machine.state ?m') = nStates m" using l by simp
  with x per_state show ?thesis by blast
qed

theorem explicitMachine_reconstruction_witness:
  "\<exists>em m'. evaluate ev_literal machine_two (Some ()) = Inr em \<and>
     explicitMachine lit_real em = Inr m' \<and>
     length (Machine.state m') = 2 \<and>
     MachineState.name (Machine.state m' ! 0) = JString ''first'' \<and>
     MachineState.name (Machine.state m' ! 1) = JString ''second''"
proof -
  obtain em where e: "evaluate ev_literal machine_two (Some ()) = Inr em"
    by (simp add: machine_two_def evaluate_simps ev_literal_def)
  have n: "nStates machine_two = 2" by (simp add: nStates_def machine_two_def)
  from explicitMachine_reconstruction [OF e, of lit_real] obtain m' where
    m': "explicitMachine lit_real em = Inr m'" "length (Machine.state m') = nStates machine_two"
    and names: "\<And>s. s < nStates machine_two \<Longrightarrow>
        MachineState.name (Machine.state m' ! s) = MachineState.name (Machine.state machine_two ! s)"
    by blast
  from names [of 0] names [of 1] n
  have "MachineState.name (Machine.state m' ! 0) = JString ''first''"
       "MachineState.name (Machine.state m' ! 1) = JString ''second''"
    by (simp_all add: machine_two_def)
  with e m' n show ?thesis by auto
qed

subsection \<open>Sums of doubles\<close>

lemma d_add_zero [simp]: "d_add x (Fin 0) = x" "d_add (Fin 0) x = x"
  by (cases x; simp)+

lemma d_sub_zero [simp]: "d_sub x (Fin 0) = x"
  by (simp add: d_sub_def)

lemma d_sub_d_add: "d_sub (d_sub x a) b = d_sub x (d_add a b)"
  by (cases x; cases a; cases b; simp add: d_sub_def)

lemma d_add_assoc: "d_add (d_add a b) c = d_add a (d_add b c)"
  by (cases a; cases b; cases c; simp)

lemma foldl_d_add: "foldl d_add x ps = d_add x (d_sum ps)"
  unfolding d_sum_def
  by (induction ps rule: rev_induct) (simp_all add: d_add_assoc)

lemma foldl_d_sub: "foldl d_sub x ps = d_sub x (d_sum ps)"
  unfolding d_sum_def
  by (induction ps rule: rev_induct) (simp_all add: d_sub_d_add)

subsection \<open>The loops of \<^verbatim>\<open>sumInTrans\<close>\<close>

lemma null_loop_result:
  assumes "src < length M" "src < length pExit" "\<forall>e\<in>set es. fst e < length (M ! src)"
  shows "null_loop src es M pExit lg =
     Inr (M[src := map (\<lambda>d. foldl d_sub (M ! src ! d)
                            (map (\<lambda>e. d_exp (logWeight (snd e))) (filter (\<lambda>e. fst e = d) es)))
                     [0 ..< length (M ! src)]],
          pExit[src := foldl d_add (pExit ! src) (map (\<lambda>e. d_exp (logWeight (snd e))) es)],
          lg @ exit_warnings src (pExit ! src) es)"
  using assms
proof (induction es arbitrary: M pExit lg)
  case Nil
  have "map (\<lambda>d. M ! src ! d) [0 ..< length (M ! src)] = M ! src"
    by (rule map_nth)
  then show ?case by simp
next
  case (Cons e es)
  obtain d t where e: "e = (d, t)" by (cases e)
  let ?p = "d_exp (logWeight t)"
  let ?M1 = "M[src := (M ! src)[d := d_sub (M ! src ! d) ?p]]"
  let ?pExit1 = "pExit[src := d_add (pExit ! src) ?p]"
  let ?lg1 = "if d_gt (?pExit1 ! src) SuspiciouslyLargeProbabilityWarningThreshold
              then lg @ [(src, ?pExit1 ! src)] else lg"
  from Cons.prems have d: "d < length (M ! src)" by (simp add: e)
  have p1: "src < length ?M1" "src < length ?pExit1" "\<forall>e\<in>set es. fst e < length (?M1 ! src)"
    using Cons.prems by simp_all
  have step: "null_loop src (e # es) M pExit lg = null_loop src es ?M1 ?pExit1 ?lg1"
    using d by (simp add: e Let_def)
  have rows: "map (\<lambda>d'. foldl d_sub (?M1 ! src ! d')
                    (map (\<lambda>e. d_exp (logWeight (snd e))) (filter (\<lambda>e. fst e = d') es)))
                [0 ..< length (?M1 ! src)] =
        map (\<lambda>d'. foldl d_sub (M ! src ! d')
                    (map (\<lambda>e. d_exp (logWeight (snd e))) (filter (\<lambda>e. fst e = d') (e # es))))
                [0 ..< length (M ! src)]"
    using Cons.prems(1) d by (intro nth_equalityI) (auto simp: e nth_list_update)
  show ?case
    unfolding step Cons.IH [OF p1] rows
    using Cons.prems(1,2) by (simp add: e Let_def)
qed

lemma null_loop_append:
  "null_loop src (xs @ ys) M pExit lg =
     (case null_loop src xs M pExit lg of
        Inl e \<Rightarrow> Inl e
      | Inr (M1, pExit1, lg1) \<Rightarrow> null_loop src ys M1 pExit1 lg1)"
proof (induction xs arbitrary: M pExit lg)
  case Nil
  then show ?case by simp
next
  case (Cons x xs)
  obtain d t where x: "x = (d, t)" by (cases x)
  show ?case by (simp add: x Let_def Cons.IH)
qed

lemma in_loop_visited:
  "in_loop src iostm M pExit lg = null_loop src (visited_edges iostm) M pExit lg"
proof (induction iostm arbitrary: M pExit lg)
  case Nil
  then show ?case by (simp add: visited_edges_def)
next
  case (Cons p iostm)
  obtain i ost where p: "p = (i, ost)" by (cases p)
  have v: "visited_edges (p # iostm) =
      (case map_of ost emptyToken of None \<Rightarrow> [] | Some stm \<Rightarrow> stm) @ visited_edges iostm"
    by (simp add: visited_edges_def p)
  show ?case
    unfolding v null_loop_append
    by (simp add: p Cons.IH split: option.splits sum.splits)
qed

lemma null_edges_proj:
  "null_edges ems =
     map (\<lambda>e. snd (snd e)) (filter (\<lambda>e. fst (snd e) = emptyToken) (edges (outgoing ems)))"
  unfolding null_edges_def case_prod_beta by simp

lemma null_edges_out:
  assumes "wf_ostm n no ostm"
  shows "map (\<lambda>e. snd (snd e)) (filter (\<lambda>e. fst (snd e) = emptyToken) (edges_out i ostm)) =
         (case map_of ostm emptyToken of None \<Rightarrow> [] | Some stm \<Rightarrow> stm)"
  using assms
proof (induction ostm)
  case Nil
  then show ?case by (simp add: edges_out_Nil)
next
  case (Cons p ostm)
  obtain a stm where p: "p = (a, stm)" by (cases p)
  from Cons.prems have w: "wf_ostm n no ostm" and lt: "\<forall>x\<in>set ostm. a < fst x"
    by (auto simp: wf_ostm_def p)
  have here: "map (\<lambda>e. snd (snd e))
        (filter (\<lambda>e. fst (snd e) = emptyToken) (map (\<lambda>(d, t). (i, a, d, t)) stm)) =
        (if a = emptyToken then stm else [])"
    by (induction stm) auto
  show ?case
  proof (cases "a = emptyToken")
    case True
    have "map_of ostm emptyToken = None"
      using lt True by (auto simp: map_of_eq_None_iff)
    with Cons.IH [OF w] here True show ?thesis
      by (simp add: p edges_out_Cons)
  next
    case False
    with Cons.IH [OF w] here show ?thesis
      by (simp add: p edges_out_Cons)
  qed
qed

lemma visited_null_edges:
  assumes "wf_iostm n ni no iostm"
  shows "visited_edges iostm =
         map (\<lambda>e. snd (snd e)) (filter (\<lambda>e. fst (snd e) = emptyToken) (edges iostm))"
  using assms
proof (induction iostm)
  case Nil
  then show ?case by (simp add: visited_edges_def edges_Nil)
next
  case (Cons p iostm)
  obtain i ost where p: "p = (i, ost)" by (cases p)
  from Cons.prems have w: "wf_iostm n ni no iostm" and wo: "wf_ostm n no ost"
    by (auto simp: wf_iostm_def p)
  have v: "visited_edges (p # iostm) =
      (case map_of ost emptyToken of None \<Rightarrow> [] | Some stm \<Rightarrow> stm) @ visited_edges iostm"
    by (simp add: visited_edges_def p)
  show ?case
    unfolding v Cons.IH [OF w] by (simp add: p edges_Cons null_edges_out [OF wo])
qed

lemma edges_out_bound:
  assumes "wf_ostm n no ostm" "e \<in> set (edges_out i ostm)"
  shows "fst (snd (snd e)) < n"
  using assms
proof (induction ostm)
  case Nil
  then show ?case by (simp add: edges_out_Nil)
next
  case (Cons p ostm)
  obtain a stm where p: "p = (a, stm)" by (cases p)
  from Cons.prems(1) have w: "wf_ostm n no ostm" and b: "\<forall>x\<in>set stm. fst x < n"
    by (auto simp: wf_ostm_def p list_all_iff)
  from Cons.prems(2) consider "e \<in> set (map (\<lambda>(d, t). (i, a, d, t)) stm)" | "e \<in> set (edges_out i ostm)"
    by (auto simp: p edges_out_Cons)
  then show ?case
  proof cases
    case 1
    with b show ?thesis by auto
  next
    case 2
    with Cons.IH [OF w] show ?thesis by simp
  qed
qed

lemma edges_bound:
  assumes "wf_iostm n ni no iostm" "e \<in> set (edges iostm)"
  shows "fst (snd (snd e)) < n"
  using assms
proof (induction iostm)
  case Nil
  then show ?case by (simp add: edges_Nil)
next
  case (Cons p iostm)
  obtain i ost where p: "p = (i, ost)" by (cases p)
  from Cons.prems(1) have w: "wf_iostm n ni no iostm" and wo: "wf_ostm n no ost"
    by (auto simp: wf_iostm_def p)
  from Cons.prems(2) edges_out_bound [OF wo, of e i] Cons.IH [OF w] show ?case
    by (auto simp: p edges_Cons)
qed

lemma visited_edges_bound:
  assumes "wf_iostm n ni no iostm" "e \<in> set (visited_edges iostm)"
  shows "fst e < n"
  using assms(2) edges_bound [OF assms(1)]
  unfolding visited_null_edges [OF assms(1)] by auto

lemma src_loop_result:
  assumes "distinct srcs" "\<forall>s\<in>set srcs. s < n \<and> wf_iostm n ni no (outgoing (st ! s))"
    and "length M = n" "\<forall>s<n. length (M ! s) = n" "length pExit = n"
  shows "src_loop st srcs M pExit lg =
     Inr (map (\<lambda>s. if s \<in> set srcs
                    then map (\<lambda>d. d_sub (if d = s then Fin 1 else M ! s ! d)
                                  (d_sum (map (\<lambda>e. d_exp (logWeight (snd e)))
                                            (filter (\<lambda>e. fst e = d) (visited_edges (outgoing (st ! s)))))))
                           [0 ..< n]
                    else M ! s) [0 ..< n],
          map (\<lambda>s. if s \<in> set srcs
                    then d_add (pExit ! s)
                           (d_sum (map (\<lambda>e. d_exp (logWeight (snd e))) (visited_edges (outgoing (st ! s)))))
                    else pExit ! s) [0 ..< n],
          lg @ concat (map (\<lambda>s. exit_warnings s (pExit ! s) (visited_edges (outgoing (st ! s)))) srcs))"
  using assms
proof (induction srcs arbitrary: M pExit lg)
  case Nil
  have "map ((!) M) [0 ..< n] = M" "map ((!) pExit) [0 ..< n] = pExit"
    using Nil.prems map_nth [of M] map_nth [of pExit] by auto
  then show ?case by simp
next
  case (Cons src srcs)
  let ?v = "\<lambda>s. visited_edges (outgoing (st ! s))"
  let ?p = "\<lambda>e. d_exp (logWeight (snd e))"
  let ?M0 = "M[src := (M ! src)[src := Fin 1]]"
  let ?M1 = "?M0[src := map (\<lambda>d. foldl d_sub (?M0 ! src ! d) (map ?p (filter (\<lambda>e. fst e = d) (?v src))))
                           [0 ..< length (?M0 ! src)]]"
  let ?pExit1 = "pExit[src := foldl d_add (pExit ! src) (map ?p (?v src))]"
  let ?lg1 = "lg @ exit_warnings src (pExit ! src) (?v src)"
  from Cons.prems have src: "src < n" and w: "wf_iostm n ni no (outgoing (st ! src))"
    and notin: "src \<notin> set srcs" and d: "distinct srcs"
    and rest: "\<forall>s\<in>set srcs. s < n \<and> wf_iostm n ni no (outgoing (st ! s))"
    by simp_all
  have len0: "length (?M0 ! src) = n" using Cons.prems(3,4) src by simp
  have b: "\<forall>e\<in>set (?v src). fst e < length (?M0 ! src)"
    using visited_edges_bound [OF w] len0 by simp
  have inner: "in_loop src (outgoing (st ! src)) ?M0 pExit lg = Inr (?M1, ?pExit1, ?lg1)"
    unfolding in_loop_visited
    using src Cons.prems(3,5) b by (intro null_loop_result) simp_all
  have step: "src_loop st (src # srcs) M pExit lg = src_loop st srcs ?M1 ?pExit1 ?lg1"
    by (simp add: Let_def inner)
  have l1: "length ?M1 = n" "\<forall>s<n. length (?M1 ! s) = n" "length ?pExit1 = n"
    using Cons.prems(3,4,5) src len0 by (auto simp: nth_list_update)
  have row: "?M1 ! s = (if s = src
        then map (\<lambda>d. d_sub (if d = s then Fin 1 else M ! s ! d)
                       (d_sum (map ?p (filter (\<lambda>e. fst e = d) (?v s))))) [0 ..< n]
        else M ! s)" if "s < n" for s
  proof (cases "s = src")
    case True
    have "map (\<lambda>d. foldl d_sub (?M0 ! src ! d) (map ?p (filter (\<lambda>e. fst e = d) (?v src)))) [0 ..< n] =
          map (\<lambda>d. d_sub (if d = src then Fin 1 else M ! src ! d)
                       (d_sum (map ?p (filter (\<lambda>e. fst e = d) (?v src))))) [0 ..< n]"
      using Cons.prems(3,4) src
      by (intro map_cong refl) (auto simp: foldl_d_sub nth_list_update)
    with True src Cons.prems(3) len0 show ?thesis by simp
  next
    case False
    with that Cons.prems(3) show ?thesis by simp
  qed
  have pe: "?pExit1 ! s = (if s = src then d_add (pExit ! s) (d_sum (map ?p (?v s))) else pExit ! s)"
    if "s < n" for s
    using that Cons.prems(5) by (simp add: nth_list_update foldl_d_add)
  have pe_rest: "map (\<lambda>s. exit_warnings s (?pExit1 ! s) (?v s)) srcs =
                 map (\<lambda>s. exit_warnings s (pExit ! s) (?v s)) srcs"
  proof (intro map_cong refl)
    fix s assume "s \<in> set srcs"
    with notin have "s \<noteq> src" by auto
    then show "exit_warnings s (?pExit1 ! s) (?v s) = exit_warnings s (pExit ! s) (?v s)"
      by simp
  qed
  have M_eq: "map (\<lambda>s. if s \<in> set srcs
                    then map (\<lambda>d. d_sub (if d = s then Fin 1 else ?M1 ! s ! d)
                                  (d_sum (map ?p (filter (\<lambda>e. fst e = d) (?v s))))) [0 ..< n]
                    else ?M1 ! s) [0 ..< n] =
              map (\<lambda>s. if s \<in> set (src # srcs)
                    then map (\<lambda>d. d_sub (if d = s then Fin 1 else M ! s ! d)
                                  (d_sum (map ?p (filter (\<lambda>e. fst e = d) (?v s))))) [0 ..< n]
                    else M ! s) [0 ..< n]"
  proof (intro map_cong refl)
    fix s assume "s \<in> set [0 ..< n]"
    then have s: "s < n" by simp
    show "(if s \<in> set srcs
                    then map (\<lambda>d. d_sub (if d = s then Fin 1 else ?M1 ! s ! d)
                                  (d_sum (map ?p (filter (\<lambda>e. fst e = d) (?v s))))) [0 ..< n]
                    else ?M1 ! s) =
          (if s \<in> set (src # srcs)
                    then map (\<lambda>d. d_sub (if d = s then Fin 1 else M ! s ! d)
                                  (d_sum (map ?p (filter (\<lambda>e. fst e = d) (?v s))))) [0 ..< n]
                    else M ! s)"
    proof (cases "s \<in> set srcs")
      case True
      with notin have "s \<noteq> src" by auto
      with True row [OF s] show ?thesis by simp
    next
      case False
      with row [OF s] show ?thesis by simp
    qed
  qed
  have P_eq: "map (\<lambda>s. if s \<in> set srcs
                    then d_add (?pExit1 ! s) (d_sum (map ?p (?v s)))
                    else ?pExit1 ! s) [0 ..< n] =
              map (\<lambda>s. if s \<in> set (src # srcs)
                    then d_add (pExit ! s) (d_sum (map ?p (?v s)))
                    else pExit ! s) [0 ..< n]"
  proof (intro map_cong refl)
    fix s assume "s \<in> set [0 ..< n]"
    then have s: "s < n" by simp
    show "(if s \<in> set srcs then d_add (?pExit1 ! s) (d_sum (map ?p (?v s))) else ?pExit1 ! s) =
          (if s \<in> set (src # srcs) then d_add (pExit ! s) (d_sum (map ?p (?v s))) else pExit ! s)"
      using pe [OF s] notin by auto
  qed
  show ?case
    unfolding step Cons.IH [OF d rest l1] M_eq P_eq pe_rest by simp
qed

subsection \<open>What \<^verbatim>\<open>sumInTrans\<close> computes and what it logs\<close>

lemma sumInTrans_wf:
  assumes "wf_em em"
  shows "sumInTrans lu em =
     (concat (map (\<lambda>s. exit_warnings s (Fin 0) (null_edges (EvaluatedMachine.state em ! s)))
                [0 ..< length (EvaluatedMachine.state em)]),
      closure_of lu em)"
proof -
  let ?n = "length (EvaluatedMachine.state em)"
  let ?st = "EvaluatedMachine.state em"
  let ?ni = "length (tok2sym (inputTokenizer em))" and ?no = "length (tok2sym (outputTokenizer em))"
  let ?p = "\<lambda>e. d_exp (logWeight (snd e))"
  have w: "\<forall>s\<in>set [0 ..< ?n]. s < ?n \<and> wf_iostm ?n ?ni ?no (outgoing (?st ! s))"
    using assms by (simp add: wf_em_def list_all_length)
  have v: "visited_edges (outgoing (?st ! s)) = null_edges (?st ! s)" if "s < ?n" for s
  proof -
    from w that have "wf_iostm ?n ?ni ?no (outgoing (?st ! s))" by simp
    then show ?thesis by (simp only: visited_null_edges null_edges_proj)
  qed
  have loop: "src_loop ?st [0 ..< ?n] (replicate ?n (replicate ?n (Fin 0))) (replicate ?n (Fin 0)) [] =
     Inr (map (\<lambda>s. if s \<in> set [0 ..< ?n]
                    then map (\<lambda>d. d_sub (if d = s then Fin 1 else replicate ?n (replicate ?n (Fin 0)) ! s ! d)
                                  (d_sum (map ?p (filter (\<lambda>e. fst e = d) (visited_edges (outgoing (?st ! s)))))))
                           [0 ..< ?n]
                    else replicate ?n (replicate ?n (Fin 0)) ! s) [0 ..< ?n],
          map (\<lambda>s. if s \<in> set [0 ..< ?n]
                    then d_add (replicate ?n (Fin 0) ! s) (d_sum (map ?p (visited_edges (outgoing (?st ! s)))))
                    else replicate ?n (Fin 0) ! s) [0 ..< ?n],
          [] @ concat (map (\<lambda>s. exit_warnings s (replicate ?n (Fin 0) ! s) (visited_edges (outgoing (?st ! s))))
                        [0 ..< ?n]))"
    using w by (intro src_loop_result) simp_all
  have M: "map (\<lambda>s. if s \<in> set [0 ..< ?n]
                    then map (\<lambda>d. d_sub (if d = s then Fin 1 else replicate ?n (replicate ?n (Fin 0)) ! s ! d)
                                  (d_sum (map ?p (filter (\<lambda>e. fst e = d) (visited_edges (outgoing (?st ! s)))))))
                           [0 ..< ?n]
                    else replicate ?n (replicate ?n (Fin 0)) ! s) [0 ..< ?n] = identity_minus_null em"
    unfolding identity_minus_null_def Let_def
    by (intro map_cong refl) (auto simp: v null_weight_def)
  have W: "map (\<lambda>s. exit_warnings s (replicate ?n (Fin 0) ! s) (visited_edges (outgoing (?st ! s)))) [0 ..< ?n] =
           map (\<lambda>s. exit_warnings s (Fin 0) (null_edges (?st ! s))) [0 ..< ?n]"
    by (intro map_cong refl) (simp add: v)
  show ?thesis
    unfolding sumInTrans_def Let_def loop M W
    by (simp add: closure_of_def)
qed

lemma exit_warnings_last:
  assumes "es \<noteq> []"
    and "d_gt (foldl d_add acc (map (\<lambda>e. d_exp (logWeight (snd e))) es)) SuspiciouslyLargeProbabilityWarningThreshold"
  shows "(src, foldl d_add acc (map (\<lambda>e. d_exp (logWeight (snd e))) es)) \<in> set (exit_warnings src acc es)"
  using assms
proof (induction es arbitrary: acc)
  case Nil
  then show ?case by simp
next
  case (Cons e es)
  show ?case
  proof (cases "es = []")
    case True
    with Cons.prems(2) show ?thesis by (simp add: Let_def)
  next
    case False
    from Cons.IH [OF False, of "d_add acc (d_exp (logWeight (snd e)))"] Cons.prems(2)
    show ?thesis by (simp add: Let_def)
  qed
qed

lemma exit_warnings_exceed:
  "w \<in> set (exit_warnings src acc es) \<Longrightarrow>
   fst w = src \<and> d_gt (snd w) SuspiciouslyLargeProbabilityWarningThreshold"
  by (induction es arbitrary: acc) (auto simp: Let_def split: if_splits)

lemma exit_weight_warned:
  assumes "wf_em em" "s < length (EvaluatedMachine.state em)"
    and "d_gt (exit_weight em s) SuspiciouslyLargeProbabilityWarningThreshold"
  shows "(s, exit_weight em s) \<in> set (fst (sumInTrans lu em))"
proof -
  let ?es = "null_edges (EvaluatedMachine.state em ! s)"
  have ne: "?es \<noteq> []"
  proof
    assume "?es = []"
    with assms(3) show False
      by (simp add: exit_weight_def d_sum_def SuspiciouslyLargeProbabilityWarningThreshold_def)
  qed
  have "(s, foldl d_add (Fin 0) (map (\<lambda>e. d_exp (logWeight (snd e))) ?es)) \<in> set (exit_warnings s (Fin 0) ?es)"
    using ne assms(3) by (intro exit_warnings_last) (simp_all add: exit_weight_def d_sum_def)
  then have "(s, exit_weight em s) \<in> set (exit_warnings s (Fin 0) ?es)"
    by (simp add: exit_weight_def d_sum_def)
  with assms(2) show ?thesis
    unfolding sumInTrans_wf [OF assms(1)] by auto
qed

lemmas closure_simps = sumInTrans_def identity_minus_null_def null_weight_def exit_weight_def
  null_edges_def edges_def edges_out_def d_sum_def d_sub_def closure_of_def log_matrix_def
  emptyToken_def SuspiciouslyLargeProbabilityWarningThreshold_def

text \<open>
  C6: for a machine built by either constructor, a state whose output-empty exit sum
  exceeds 1.01 has a warning with that sum in the log, and every warning logged carries a
  sum above 1.01. The diagnostic neither fails the call nor changes its result:
  \<^verbatim>\<open>sumInTrans\<close> returns the logarithm of the matrix the library computes from \<open>M\<close> whenever
  the library returns, its only failure is the library stopping the program, and both are
  exactly what the computation without the diagnostic gives. (\<^verbatim>\<open>LogThisAt\<close> is given the
  level 6; whether the logger prints at that level is not modelled.)
\<close>

theorem exit_warning_leaves_result:
  assumes "evaluate ev m params = Inr em"
  shows "(\<forall>s<nStates m. d_gt (exit_weight em s) SuspiciouslyLargeProbabilityWarningThreshold \<longrightarrow>
            (s, exit_weight em s) \<in> set (fst (sumInTrans lu em))) \<and>
         (\<forall>w\<in>set (fst (sumInTrans lu em)). d_gt (snd w) SuspiciouslyLargeProbabilityWarningThreshold) \<and>
         snd (sumInTrans lu em) = closure_of lu em \<and>
         (\<forall>L. snd (sumInTrans lu em) = Inr L \<longleftrightarrow>
              (\<exists>G. lu (identity_minus_null em) = Some G \<and> L = log_matrix G)) \<and>
         (\<forall>e. snd (sumInTrans lu em) = Inl e \<longleftrightarrow>
              lu (identity_minus_null em) = None \<and> e = LibraryFailure)"
proof -
  have w: "wf_em em" using assms by (rule evaluate_wf)
  have l: "length (EvaluatedMachine.state em) = nStates m" using assms by (rule evaluate_length)
  have a: "(s, exit_weight em s) \<in> set (fst (sumInTrans lu em))"
    if "s < nStates m" "d_gt (exit_weight em s) SuspiciouslyLargeProbabilityWarningThreshold" for s
    using exit_weight_warned [OF w _ that(2)] that(1) l by simp
  have b: "d_gt (snd x) SuspiciouslyLargeProbabilityWarningThreshold"
    if "x \<in> set (fst (sumInTrans lu em))" for x
    using that unfolding sumInTrans_wf [OF w] by (auto dest: exit_warnings_exceed)
  have c: "snd (sumInTrans lu em) = closure_of lu em"
    by (simp add: sumInTrans_wf [OF w])
  have d: "closure_of lu em = Inr L \<longleftrightarrow> (\<exists>G. lu (identity_minus_null em) = Some G \<and> L = log_matrix G)" for L
    by (auto simp: closure_of_def split: option.splits)
  have e: "closure_of lu em = Inl e \<longleftrightarrow> lu (identity_minus_null em) = None \<and> e = LibraryFailure" for e
    by (auto simp: closure_of_def split: option.splits)
  from a b c d e show ?thesis by simp
qed

theorem exit_warning_leaves_result_witness:
  "(\<exists>em. evaluate ev_literal machine_fork None = Inr em \<and>
      d_gt (exit_weight em 0) SuspiciouslyLargeProbabilityWarningThreshold \<and>
      (0, Fin 2) \<in> set (fst (sumInTrans (\<lambda>M. Some (fin_matrix [[1, 2], [0, 1]])) em)) \<and>
      snd (sumInTrans (\<lambda>M. Some (fin_matrix [[1, 2], [0, 1]])) em) =
        Inr [[Fin 0, Fin (ln 2)], [NInf, Fin 0]]) \<and>
   (\<exists>em. evaluate ev_literal machine_loop None = Inr em \<and>
      d_gt (exit_weight em 0) SuspiciouslyLargeProbabilityWarningThreshold \<and>
      (\<forall>lu G. lu (identity_minus_null em) = Some G \<longrightarrow>
         (0, Fin 2) \<in> set (fst (sumInTrans lu em)) \<and>
         snd (sumInTrans lu em) = Inr (log_matrix G)))"
proof -
  let ?lu = "\<lambda>M :: double list list. Some (fin_matrix [[1, 2], [0, 1]])"
  have first: "\<exists>em. evaluate ev_literal machine_fork None = Inr em \<and>
      d_gt (exit_weight em 0) SuspiciouslyLargeProbabilityWarningThreshold \<and>
      (0, Fin 2) \<in> set (fst (sumInTrans ?lu em)) \<and>
      snd (sumInTrans ?lu em) = Inr [[Fin 0, Fin (ln 2)], [NInf, Fin 0]]"
  proof -
    obtain em where e: "evaluate ev_literal machine_fork None = Inr em"
      and x: "exit_weight em 0 = Fin 2"
      by (simp add: machine_fork_def evaluate_simps closure_simps)
    have n: "0 < nStates machine_fork" by (simp add: nStates_def machine_fork_def)
    have g: "d_gt (exit_weight em 0) SuspiciouslyLargeProbabilityWarningThreshold"
      by (simp add: x SuspiciouslyLargeProbabilityWarningThreshold_def)
    note t = exit_warning_leaves_result [OF e, of ?lu]
    from t n g have "(0, exit_weight em 0) \<in> set (fst (sumInTrans ?lu em))" by blast
    moreover from t have "snd (sumInTrans ?lu em) = closure_of ?lu em" by blast
    ultimately show ?thesis
      using e g x by (auto simp: closure_of_def log_matrix_def fin_matrix_def)
  qed
  have second: "\<exists>em. evaluate ev_literal machine_loop None = Inr em \<and>
      d_gt (exit_weight em 0) SuspiciouslyLargeProbabilityWarningThreshold \<and>
      (\<forall>lu G. lu (identity_minus_null em) = Some G \<longrightarrow>
         (0, Fin 2) \<in> set (fst (sumInTrans lu em)) \<and>
         snd (sumInTrans lu em) = Inr (log_matrix G))"
  proof -
    obtain em where e: "evaluate ev_literal machine_loop None = Inr em"
      and x: "exit_weight em 0 = Fin 2"
      by (simp add: machine_loop_def evaluate_simps closure_simps)
    have n: "0 < nStates machine_loop" by (simp add: nStates_def machine_loop_def)
    have g: "d_gt (exit_weight em 0) SuspiciouslyLargeProbabilityWarningThreshold"
      by (simp add: x SuspiciouslyLargeProbabilityWarningThreshold_def)
    have r: "(0, Fin 2) \<in> set (fst (sumInTrans lu em)) \<and> snd (sumInTrans lu em) = Inr (log_matrix G)"
      if "lu (identity_minus_null em) = Some G" for lu G
    proof -
      note t = exit_warning_leaves_result [OF e, of lu]
      from t n g have "(0, exit_weight em 0) \<in> set (fst (sumInTrans lu em))" by blast
      moreover from t that have "snd (sumInTrans lu em) = Inr (log_matrix G)" by blast
      ultimately show ?thesis by (simp add: x)
    qed
    from e g r show ?thesis by blast
  qed
  from first second show ?thesis by (rule conjI)
qed

subsection \<open>A matrix without an inverse\<close>




subsection \<open>Real matrices\<close>

lemma mat_mul_assoc:
  "mat_mul n A (mat_mul n B C) i j = mat_mul n (mat_mul n A B) C i j"
proof -
  have "(\<Sum>k<n. A i k * (\<Sum>l<n. B k l * C l j)) = (\<Sum>k<n. \<Sum>l<n. A i k * B k l * C l j)"
    by (simp add: sum_distrib_left mult.assoc)
  also have "\<dots> = (\<Sum>l<n. \<Sum>k<n. A i k * B k l * C l j)"
    by (rule sum.swap)
  also have "\<dots> = (\<Sum>l<n. (\<Sum>k<n. A i k * B k l) * C l j)"
    by (simp add: sum_distrib_right)
  finally show ?thesis by (simp add: mat_mul_def)
qed

lemma kron_row: "i < n \<Longrightarrow> (\<Sum>k<n. kron i k * x k) = x i"
  by (simp add: kron_def if_distrib [of "\<lambda>c. c * _"] sum.delta cong: if_cong)

lemma kron_col: "j < n \<Longrightarrow> (\<Sum>k<n. x k * kron k j) = x j"
  by (simp add: kron_def if_distrib [of "\<lambda>c. _ * c"] sum.delta' cong: if_cong)

subsection \<open>Finite weights\<close>

lemma d_sum_fin:
  "list_all is_fin ps \<Longrightarrow> d_sum ps = Fin (sum_list (map real_of ps))"
proof (induction ps rule: rev_induct)
  case Nil
  then show ?case by (simp add: d_sum_def)
next
  case (snoc p ps)
  then obtain a where "p = Fin a" by (cases p) simp_all
  with snoc show ?case by (simp add: d_sum_def)
qed

lemma sum_list_by_dest:
  fixes f :: "nat \<times> 'b \<Rightarrow> real" and n :: nat
  assumes "\<forall>e\<in>set es. fst e < n"
  shows "sum_list (map f es) = (\<Sum>m<n. sum_list (map f (filter (\<lambda>e. fst e = m) es)))"
  using assms
proof (induction es)
  case Nil
  then show ?case by simp
next
  case (Cons e es)
  have "(\<Sum>m<n. sum_list (map f (filter (\<lambda>e. fst e = m) (e # es)))) =
        (\<Sum>m<n. (if fst e = m then f e else 0) + sum_list (map f (filter (\<lambda>e. fst e = m) es)))"
    by (intro sum.cong refl) simp
  also have "\<dots> = (\<Sum>m<n. if fst e = m then f e else 0) + (\<Sum>m<n. sum_list (map f (filter (\<lambda>e. fst e = m) es)))"
    by (rule sum.distrib)
  also have "(\<Sum>m<n. if fst e = m then f e else 0) = f e"
    using Cons.prems by (simp add: sum.delta')
  finally show ?case using Cons by simp
qed

subsection \<open>Path weights and the matrix of output-empty weights\<close>

lemma null_edges_bound:
  assumes "wf_em em" "s < length (EvaluatedMachine.state em)"
    and "e \<in> set (null_edges (EvaluatedMachine.state em ! s))"
  shows "fst e < length (EvaluatedMachine.state em)"
proof -
  let ?n = "length (EvaluatedMachine.state em)"
  from assms(1,2) have w: "wf_iostm ?n (length (tok2sym (inputTokenizer em)))
      (length (tok2sym (outputTokenizer em))) (outgoing (EvaluatedMachine.state em ! s))"
    by (simp add: wf_em_def list_all_length)
  have "visited_edges (outgoing (EvaluatedMachine.state em ! s)) = null_edges (EvaluatedMachine.state em ! s)"
    using w by (simp only: visited_null_edges null_edges_proj)
  with visited_edges_bound [OF w, of e] assms(3) show ?thesis by simp
qed

lemma null_matrix_sum:
  assumes "finite_null_weights em" "s < length (EvaluatedMachine.state em)"
  shows "null_matrix em s d =
     sum_list (map (\<lambda>e. real_of (d_exp (logWeight (snd e))))
                 (filter (\<lambda>e. fst e = d) (null_edges (EvaluatedMachine.state em ! s))))"
    and "null_weight em s d = Fin (null_matrix em s d)"
proof -
  let ?es = "filter (\<lambda>e. fst e = d) (null_edges (EvaluatedMachine.state em ! s))"
  from assms have "list_all (\<lambda>e. is_fin (d_exp (logWeight (snd e)))) (null_edges (EvaluatedMachine.state em ! s))"
    by (simp add: finite_null_weights_def list_all_length)
  then have "list_all is_fin (map (\<lambda>e. d_exp (logWeight (snd e))) ?es)"
    by (simp add: list_all_iff)
  from d_sum_fin [OF this]
  have f: "null_weight em s d = Fin (sum_list (map (\<lambda>e. real_of (d_exp (logWeight (snd e)))) ?es))"
    by (simp add: null_weight_def comp_def)
  then show "null_matrix em s d = sum_list (map (\<lambda>e. real_of (d_exp (logWeight (snd e)))) ?es)"
    by (simp add: null_matrix_def)
  with f show "null_weight em s d = Fin (null_matrix em s d)" by simp
qed

lemma path_weight_Suc:
  assumes "wf_em em" "finite_null_weights em" "s < length (EvaluatedMachine.state em)"
  shows "path_weight em (Suc k) s d =
     (\<Sum>m<length (EvaluatedMachine.state em). null_matrix em s m * path_weight em k m d)"
proof -
  let ?n = "length (EvaluatedMachine.state em)"
  let ?es = "null_edges (EvaluatedMachine.state em ! s)"
  let ?w = "\<lambda>e. real_of (d_exp (logWeight (snd e)))"
  have b: "\<forall>e\<in>set ?es. fst e < ?n"
    using null_edges_bound [OF assms(1,3)] by blast
  have "path_weight em (Suc k) s d = sum_list (map (\<lambda>e. ?w e * path_weight em k (fst e) d) ?es)"
    by simp
  also have "\<dots> = (\<Sum>m<?n. sum_list (map (\<lambda>e. ?w e * path_weight em k (fst e) d) (filter (\<lambda>e. fst e = m) ?es)))"
    using b by (rule sum_list_by_dest)
  also have "\<dots> = (\<Sum>m<?n. null_matrix em s m * path_weight em k m d)"
  proof (intro sum.cong refl)
    fix m
    let ?fs = "filter (\<lambda>e. fst e = m) ?es"
    have "map (\<lambda>e. ?w e * path_weight em k (fst e) d) ?fs = map (\<lambda>e. ?w e * path_weight em k m d) ?fs"
      by (intro map_cong refl) simp
    then have "sum_list (map (\<lambda>e. ?w e * path_weight em k (fst e) d) ?fs) =
          sum_list (map (\<lambda>e. ?w e * path_weight em k m d) ?fs)"
      by (rule arg_cong)
    also have "\<dots> = sum_list (map ?w ?fs) * path_weight em k m d"
      by (rule sum_list_mult_const)
    also have "sum_list (map ?w ?fs) = null_matrix em s m"
      by (rule null_matrix_sum(1) [OF assms(2,3), symmetric])
    finally show "sum_list (map (\<lambda>e. ?w e * path_weight em k (fst e) d) ?fs) =
          null_matrix em s m * path_weight em k m d" .
  qed
  finally show ?thesis .
qed

lemma path_weight_nonneg: "0 \<le> path_weight em k s d"
proof (induction k arbitrary: s)
  case 0
  then show ?case by (simp add: kron_def)
next
  case (Suc k)
  have "0 \<le> real_of (d_exp x)" for x by (cases x) simp_all
  with Suc show ?case by (auto intro!: sum_list_nonneg)
qed

subsection \<open>The inverse of \<open>I - N\<close> and the sum of the powers of \<open>N\<close>\<close>

lemma neumann_partial:
  fixes N G :: "nat \<Rightarrow> nat \<Rightarrow> real" and P :: "nat \<Rightarrow> nat \<Rightarrow> nat \<Rightarrow> real"
  assumes P0: "\<And>s d. P 0 s d = kron s d"
    and PS: "\<And>k s d. s < n \<Longrightarrow> P (Suc k) s d = (\<Sum>m<n. N s m * P k m d)"
    and left: "\<And>i j. i < n \<Longrightarrow> j < n \<Longrightarrow> mat_mul n G (\<lambda>s d. kron s d - N s d) i j = kron i j"
    and s: "s < n" and d: "d < n"
  shows "(\<Sum>k<K. P k s d) = G s d - (\<Sum>m<n. G s m * P K m d)"
proof -
  let ?M = "\<lambda>s d. kron s d - N s d"
  let ?S = "\<lambda>s d. \<Sum>k<K. P k s d"
  have one: "mat_mul n ?M ?S m d = kron m d - P K m d" if m: "m < n" for m
  proof -
    have "mat_mul n ?M ?S m d = (\<Sum>l<n. kron m l * ?S l d) - (\<Sum>l<n. N m l * ?S l d)"
      by (simp add: mat_mul_def left_diff_distrib sum_subtractf)
    also have "(\<Sum>l<n. kron m l * ?S l d) = ?S m d"
      using m by (rule kron_row)
    also have "(\<Sum>l<n. N m l * ?S l d) = (\<Sum>l<n. \<Sum>k<K. N m l * P k l d)"
      by (simp add: sum_distrib_left)
    also have "\<dots> = (\<Sum>k<K. \<Sum>l<n. N m l * P k l d)"
      by (rule sum.swap)
    also have "\<dots> = (\<Sum>k<K. P (Suc k) m d)"
      using PS [OF m] by simp
    also have "?S m d - (\<Sum>k<K. P (Suc k) m d) = (\<Sum>k<K. P k m d - P (Suc k) m d)"
      by (simp add: sum_subtractf)
    also have "\<dots> = P 0 m d - P K m d"
      by (rule sum_lessThan_telescope')
    finally show ?thesis by (simp add: P0)
  qed
  have "mat_mul n G (mat_mul n ?M ?S) s d = (\<Sum>m<n. G s m * (kron m d - P K m d))"
    unfolding mat_mul_def [of n G] using one by (intro sum.cong refl) simp
  also have "\<dots> = (\<Sum>m<n. G s m * kron m d) - (\<Sum>m<n. G s m * P K m d)"
    by (simp add: right_diff_distrib sum_subtractf)
  also have "(\<Sum>m<n. G s m * kron m d) = G s d"
    using d by (rule kron_col)
  finally have two: "mat_mul n G (mat_mul n ?M ?S) s d = G s d - (\<Sum>m<n. G s m * P K m d)" .
  have "mat_mul n (mat_mul n G ?M) ?S s d = (\<Sum>m<n. kron s m * ?S m d)"
    unfolding mat_mul_def [of n "mat_mul n G ?M"] using left [OF s] by (intro sum.cong refl) simp
  also have "\<dots> = ?S s d"
    using s by (rule kron_row)
  finally have three: "mat_mul n (mat_mul n G ?M) ?S s d = ?S s d" .
  from two three mat_mul_assoc [of n G ?M ?S s d] show ?thesis by simp
qed

lemma neumann_sums:
  fixes N G :: "nat \<Rightarrow> nat \<Rightarrow> real" and P :: "nat \<Rightarrow> nat \<Rightarrow> nat \<Rightarrow> real"
  assumes P0: "\<And>s d. P 0 s d = kron s d"
    and PS: "\<And>k s d. s < n \<Longrightarrow> P (Suc k) s d = (\<Sum>m<n. N s m * P k m d)"
    and left: "\<And>i j. i < n \<Longrightarrow> j < n \<Longrightarrow> mat_mul n G (\<lambda>s d. kron s d - N s d) i j = kron i j"
    and s: "s < n" and d: "d < n"
    and summ: "\<And>m. m < n \<Longrightarrow> summable (\<lambda>k. P k m d)"
  shows "(\<lambda>k. P k s d) sums G s d"
proof -
  have z: "(\<lambda>K. G s m * P K m d) \<longlonglongrightarrow> G s m * 0" if "m \<in> {..<n}" for m
    using that by (intro tendsto_mult_left summable_LIMSEQ_zero summ) simp
  have "(\<lambda>K. \<Sum>m<n. G s m * P K m d) \<longlonglongrightarrow> (\<Sum>m<n. G s m * 0)"
    using z by (rule tendsto_sum)
  then have "(\<lambda>K. G s d - (\<Sum>m<n. G s m * P K m d)) \<longlonglongrightarrow> G s d - 0"
    by (intro tendsto_diff tendsto_const) simp
  then have "(\<lambda>K. \<Sum>k<K. P k s d) \<longlonglongrightarrow> G s d"
    by (simp add: neumann_partial [OF P0 PS left s d])
  then show ?thesis by (simp add: sums_def)
qed

subsection \<open>The closure\<close>

lemma identity_minus_null_fin:
  assumes "finite_null_weights em"
  shows "identity_minus_null em =
     fin_matrix (map (\<lambda>s. map (one_minus_null em s) [0 ..< length (EvaluatedMachine.state em)])
                   [0 ..< length (EvaluatedMachine.state em)])"
  unfolding identity_minus_null_def Let_def fin_matrix_def
  by (auto simp: null_matrix_sum(2) [OF assms] one_minus_null_def kron_def d_sub_def)

lemma closure_sums:
  assumes w: "wf_em em" and f: "finite_null_weights em"
    and inv: "is_inverse (length (EvaluatedMachine.state em)) (one_minus_null em) G"
    and s: "s < length (EvaluatedMachine.state em)" and d: "d < length (EvaluatedMachine.state em)"
    and summ: "\<And>m. m < length (EvaluatedMachine.state em) \<Longrightarrow> summable (\<lambda>k. path_weight em k m d)"
  shows "(\<lambda>k. path_weight em k s d) sums G s d"
proof (rule neumann_sums [where N = "null_matrix em" and n = "length (EvaluatedMachine.state em)"])
  show "path_weight em 0 s d = kron s d" for s d by simp
  show "path_weight em (Suc k) s d =
      (\<Sum>m<length (EvaluatedMachine.state em). null_matrix em s m * path_weight em k m d)"
    if "s < length (EvaluatedMachine.state em)" for k s d
    using w f that by (rule path_weight_Suc)
  show "mat_mul (length (EvaluatedMachine.state em)) G (\<lambda>s d. kron s d - null_matrix em s d) i j = kron i j"
    if "i < length (EvaluatedMachine.state em)" "j < length (EvaluatedMachine.state em)" for i j
  proof -
    have "(\<lambda>s d. kron s d - null_matrix em s d) = one_minus_null em"
      by (simp add: one_minus_null_def fun_eq_iff)
    with inv that show ?thesis by (simp add: is_inverse_def)
  qed
qed (use s d summ in auto)

text \<open>
  C1, as the spec states it, for every evaluated machine: \<^verbatim>\<open>sumInTrans\<close> returns the
  logarithm of the inverse of \<open>M\<close>, so that every entry is the logarithm of the total weight
  of the output-empty paths between two states. In the machine below the one state has an
  output-empty loop of weight 2. \<open>M\<close> is the 1 by 1 matrix \<open>-1\<close>, which is its own inverse;
  the paths of \<open>k\<close> edges from the state to itself weigh \<open>2 ^ k\<close> together, which has no sum;
  and the value returned for the inverse is the logarithm of \<open>-1\<close>, not a number.
\<close>

theorem closure_divergent_counterexample:
  "\<exists>em. evaluate ev_literal machine_double (Some ()) = Inr em \<and>
     finite_null_weights em \<and>
     identity_minus_null em = fin_matrix [[- 1]] \<and>
     is_inverse 1 (one_minus_null em) (entry [[- 1]]) \<and>
     (\<forall>k. path_weight em k 0 0 = 2 ^ k) \<and>
     \<not> summable (\<lambda>k. path_weight em k 0 0) \<and>
     (\<forall>lu. lu (identity_minus_null em) = Some (fin_matrix [[- 1]]) \<longrightarrow>
        snd (sumInTrans lu em) = Inr [[NaN]])"
proof -
  obtain em where e: "evaluate ev_literal machine_double (Some ()) = Inr em"
    and st: "null_edges (EvaluatedMachine.state em ! 0) = [(0, \<lparr> logWeight = Fin (ln 2), transIndex = 0 \<rparr>)]"
    and n: "length (EvaluatedMachine.state em) = 1"
    by (simp add: machine_double_def evaluate_simps ev_literal_def null_edges_def edges_def
          edges_out_def emptyToken_def)
  have f: "finite_null_weights em"
    using n st by (cases "EvaluatedMachine.state em") (simp_all add: finite_null_weights_def)
  have M: "identity_minus_null em = fin_matrix [[- 1]]"
    by (simp add: identity_minus_null_def n null_weight_def st d_sum_def d_sub_def fin_matrix_def)
  have o: "one_minus_null em 0 0 = - 1"
    by (simp add: one_minus_null_def null_matrix_def null_weight_def st d_sum_def kron_def)
  have i: "is_inverse 1 (one_minus_null em) (entry [[- 1]])"
    by (simp add: is_inverse_def mat_mul_def o entry_def kron_def)
  have p: "path_weight em k 0 0 = 2 ^ k" for k
    by (induction k) (simp_all add: st kron_def)
  have "\<not> summable (\<lambda>k. (2::real) ^ k)"
    by (simp add: summable_geometric_iff)
  then have ns: "\<not> summable (\<lambda>k. path_weight em k 0 0)"
    by (simp add: p)
  have r: "snd (sumInTrans lu em) = Inr [[NaN]]"
    if "lu (identity_minus_null em) = Some (fin_matrix [[- 1]])" for lu
    using that by (simp add: sumInTrans_wf [OF evaluate_wf [OF e]] closure_of_def log_matrix_def fin_matrix_def)
  from e f M i p ns r show ?thesis by blast
qed

text \<open>
  C1, amended: for a machine built by either constructor whose output-empty edges have
  finite weights, \<open>M\<close> is the real matrix with 1 on the diagonal from which the summed
  \<^verbatim>\<open>exp (logWeight)\<close> of the output-empty edges from \<open>s\<close> to \<open>d\<close> is subtracted at \<open>(s, d)\<close>, loops
  included. When the library returns the inverse \<open>G\<close> of \<open>M\<close>, \<^verbatim>\<open>sumInTrans\<close> returns the
  logarithm of every entry of \<open>G\<close>. When moreover the total weights of the output-empty
  paths of 0, 1, 2, ... edges between any two states have a sum, that sum is the entry of
  \<open>G\<close>, and the entry returned is its logarithm.
\<close>

theorem closure_is_log_of_inverse:
  assumes "evaluate ev m params = Inr em"
    and "finite_null_weights em"
    and "lu (identity_minus_null em) = Some (fin_matrix G)"
    and "length G = nStates m" and "\<forall>s<nStates m. length (G ! s) = nStates m"
    and "is_inverse (nStates m) (one_minus_null em) (entry G)"
  shows "(\<forall>s<nStates m. \<forall>d<nStates m.
            identity_minus_null em ! s ! d =
              Fin ((if s = d then 1 else 0) -
                   sum_list (map (\<lambda>e. real_of (d_exp (logWeight (snd e))))
                               (filter (\<lambda>e. fst e = d) (null_edges (EvaluatedMachine.state em ! s))))) \<and>
            identity_minus_null em ! s ! d = Fin (one_minus_null em s d)) \<and>
         snd (sumInTrans lu em) = Inr (map (map (\<lambda>x. d_log (Fin x))) G) \<and>
         ((\<forall>s<nStates m. \<forall>d<nStates m. summable (\<lambda>k. path_weight em k s d)) \<longrightarrow>
          (\<forall>s<nStates m. \<forall>d<nStates m.
             (\<lambda>k. path_weight em k s d) sums (G ! s ! d) \<and>
             snd (sumInTrans lu em) = Inr (map (map (\<lambda>x. d_log (Fin x))) G) \<and>
             map (map (\<lambda>x. d_log (Fin x))) G ! s ! d = d_log (Fin (\<Sum>k. path_weight em k s d))))"
proof -
  have w: "wf_em em" using assms(1) by (rule evaluate_wf)
  have l: "length (EvaluatedMachine.state em) = nStates m" using assms(1) by (rule evaluate_length)
  have M: "identity_minus_null em ! s ! d = Fin (one_minus_null em s d)"
    if "s < nStates m" "d < nStates m" for s d
    using that by (simp add: identity_minus_null_fin [OF assms(2)] l fin_matrix_def)
  have M': "one_minus_null em s d = (if s = d then 1 else 0) -
                   sum_list (map (\<lambda>e. real_of (d_exp (logWeight (snd e))))
                               (filter (\<lambda>e. fst e = d) (null_edges (EvaluatedMachine.state em ! s))))"
    if "s < nStates m" for s d
    using that null_matrix_sum(1) [OF assms(2), of s d] by (simp add: one_minus_null_def kron_def l)
  have r: "snd (sumInTrans lu em) = Inr (map (map (\<lambda>x. d_log (Fin x))) G)"
    by (simp add: sumInTrans_wf [OF w] closure_of_def assms(3) log_matrix_def fin_matrix_def comp_def)
  have p: "(\<lambda>k. path_weight em k s d) sums (G ! s ! d) \<and>
           map (map (\<lambda>x. d_log (Fin x))) G ! s ! d = d_log (Fin (\<Sum>k. path_weight em k s d))"
    if all: "\<forall>s<nStates m. \<forall>d<nStates m. summable (\<lambda>k. path_weight em k s d)"
      and s: "s < nStates m" and d: "d < nStates m" for s d
  proof -
    have "(\<lambda>k. path_weight em k s d) sums entry G s d"
      using w assms(2) assms(6) s d all unfolding l [symmetric]
      by (intro closure_sums) simp_all
    then have a: "(\<lambda>k. path_weight em k s d) sums (G ! s ! d)" by (simp add: entry_def)
    then have "(\<Sum>k. path_weight em k s d) = G ! s ! d" by (simp add: sums_iff)
    with a s d assms(4,5) show ?thesis by simp
  qed
  from M M' r p show ?thesis by simp
qed

theorem closure_is_log_of_inverse_witness:
  "\<exists>em. evaluate ev_literal machine_half (Some ()) = Inr em \<and>
     finite_null_weights em \<and>
     identity_minus_null em = fin_matrix [[1 / 2]] \<and>
     is_inverse 1 (one_minus_null em) (entry [[2]]) \<and>
     summable (\<lambda>k. path_weight em k 0 0) \<and>
     snd (sumInTrans (\<lambda>M. Some (fin_matrix [[2]])) em) = Inr [[Fin (ln 2)]] \<and>
     (\<lambda>k. path_weight em k 0 0) sums 2"
proof -
  let ?lu = "\<lambda>M :: double list list. Some (fin_matrix [[2]])"
  obtain em where e: "evaluate ev_literal machine_half (Some ()) = Inr em"
    and st: "null_edges (EvaluatedMachine.state em ! 0) = [(0, \<lparr> logWeight = Fin (ln (1 / 2)), transIndex = 0 \<rparr>)]"
    and n: "length (EvaluatedMachine.state em) = 1"
    by (simp add: machine_half_def evaluate_simps ev_literal_def null_edges_def edges_def
          edges_out_def emptyToken_def)
  have ns: "nStates machine_half = 1" by (simp add: nStates_def machine_half_def)
  have x: "exp (ln (1 / 2 :: real)) = 1 / 2" by (rule exp_ln) simp
  have f: "finite_null_weights em"
    using n st by (cases "EvaluatedMachine.state em") (simp_all add: finite_null_weights_def)
  have M: "identity_minus_null em = fin_matrix [[1 / 2]]"
    using x by (simp add: identity_minus_null_def n null_weight_def st d_sum_def d_sub_def fin_matrix_def)
  have o: "one_minus_null em 0 0 = 1 / 2"
    using x by (simp add: one_minus_null_def null_matrix_def null_weight_def st d_sum_def kron_def)
  have i: "is_inverse 1 (one_minus_null em) (entry [[2]])"
    by (simp add: is_inverse_def mat_mul_def o entry_def kron_def)
  have p: "path_weight em k 0 0 = (1 / 2) ^ k" for k
    using x by (induction k) (simp_all add: st kron_def)
  have s: "summable (\<lambda>k. path_weight em k 0 0)"
    by (simp add: p summable_geometric_iff)
  note t = closure_is_log_of_inverse [OF e f, of ?lu "[[2]]"]
  have c: "snd (sumInTrans ?lu em) = Inr (map (map (\<lambda>x. d_log (Fin x))) [[2]]) \<and>
    ((\<forall>s<nStates machine_half. \<forall>d<nStates machine_half. summable (\<lambda>k. path_weight em k s d)) \<longrightarrow>
          (\<forall>s<nStates machine_half. \<forall>d<nStates machine_half.
             (\<lambda>k. path_weight em k s d) sums ([[2]] ! s ! d) \<and>
             snd (sumInTrans ?lu em) = Inr (map (map (\<lambda>x. d_log (Fin x))) [[2]]) \<and>
             map (map (\<lambda>x. d_log (Fin x))) [[2]] ! s ! d = d_log (Fin (\<Sum>k. path_weight em k s d))))"
    using t i by (simp add: ns)
  then have r: "snd (sumInTrans ?lu em) = Inr [[Fin (ln 2)]]" by simp
  from c s have "(\<lambda>k. path_weight em k 0 0) sums 2" by (simp add: ns)
  with e f M i s r show ?thesis by blast
qed

subsection \<open>The diagonal of the closure\<close>

lemma edge_is_stored:
  assumes "evaluate ev m params = Inr em" and "s < nStates m"
    and "e \<in> set (edges (outgoing (EvaluatedMachine.state em ! s)))"
  shows "\<exists>k<length (trans (Machine.state m ! s)).
           stored_edge ev (inputTokenizer em) (outputTokenizer em) params
             (k, trans (Machine.state m ! s) ! k) = Some e"
proof -
  from evaluate_state(4) [OF assms(1,2)] obtain es where
    es: "map Some es = map (stored_edge ev (inputTokenizer em) (outputTokenizer em) params)
                             (enumerate 0 (trans (Machine.state m ! s)))"
        "mset (edges (outgoing (EvaluatedMachine.state em ! s))) = mset es"
    by blast
  note by_index = stored_edges_by_index [OF es(1)]
  have "set (edges (outgoing (EvaluatedMachine.state em ! s))) = set es"
    using es(2) by (rule mset_eq_setD)
  with assms(3) have "e \<in> set es" by simp
  then obtain k where "k < length es" "e = es ! k" by (auto simp: in_set_conv_nth)
  with by_index show ?thesis by auto
qed

lemma unevaluated_weights:
  assumes "evaluate ev m None = Inr em"
  shows "finite_null_weights em"
    and "s < nStates m \<Longrightarrow> e \<in> set (null_edges (EvaluatedMachine.state em ! s)) \<Longrightarrow>
         d_exp (logWeight (snd e)) = Fin 1"
proof -
  have one: "d_exp (logWeight (snd e)) = Fin 1"
    if "s < nStates m" "e \<in> set (null_edges (EvaluatedMachine.state em ! s))" for s e
  proof -
    from that(2) obtain x where x: "x \<in> set (edges (outgoing (EvaluatedMachine.state em ! s)))" "e = snd (snd x)"
      by (auto simp: null_edges_proj)
    from edge_is_stored [OF assms that(1) x(1)] obtain k where
      "stored_edge ev (inputTokenizer em) (outputTokenizer em) None (k, trans (Machine.state m ! s) ! k) = Some x"
      by blast
    then have "logWeight (snd (snd (snd x))) = Fin 0"
      by (auto elim!: stored_edge_SomeD simp: eval_logWeight_def)
    with x(2) show ?thesis by simp
  qed
  then show "s < nStates m \<Longrightarrow> e \<in> set (null_edges (EvaluatedMachine.state em ! s)) \<Longrightarrow>
         d_exp (logWeight (snd e)) = Fin 1" .
  from one show "finite_null_weights em"
    by (simp add: finite_null_weights_def list_all_length evaluate_length [OF assms])
qed

lemma no_output_empty_edges:
  assumes "evaluate ev m params = Inr em" and "s < nStates m"
    and "\<forall>t\<in>set (trans (Machine.state m ! s)). \<not> outputEmpty t"
  shows "null_edges (EvaluatedMachine.state em ! s) = []"
proof -
  have ot: "outputTokenizer em = Tokenizer_new (outputAlphabet m)"
    using assms(1) by (auto elim: evaluate_Inr)
  have "fst (snd x) \<noteq> emptyToken" if "x \<in> set (edges (outgoing (EvaluatedMachine.state em ! s)))" for x
  proof
    assume z: "fst (snd x) = emptyToken"
    from edge_is_stored [OF assms(1,2) that] obtain k where
      k: "k < length (trans (Machine.state m ! s))"
      "stored_edge ev (inputTokenizer em) (outputTokenizer em) params (k, trans (Machine.state m ! s) ! k) = Some x"
      by blast
    from k(2) z have "sym2tok (outputTokenizer em) (trans_out (trans (Machine.state m ! s) ! k)) = Some emptyToken"
      by (auto elim!: stored_edge_SomeD)
    then have "trans_out (trans (Machine.state m ! s) ! k) = []"
      unfolding ot by (rule token_zero_empty)
    with assms(3) k(1) show False by (auto simp: outputEmpty_def)
  qed
  then show ?thesis by (auto simp: null_edges_proj filter_empty_conv)
qed

text \<open>
  C8, as the spec states it, for every advancing machine and every state: the diagonal
  entry of the closure of the machine evaluated without parameters is at least 0. In the
  machine below no transition is silent, so it is advancing, but its output-empty
  transitions form cycles. The inverse of \<open>M\<close> has one half in the top left corner, and the
  entry returned there is the logarithm of one half, which is negative.
\<close>

theorem closure_diagonal_counterexample:
  "isAdvancingMachine machine_cycle \<and>
   (\<exists>em. evaluate ev_literal machine_cycle None = Inr em \<and>
      identity_minus_null em = fin_matrix [[1, - 1], [- 1, - 1]] \<and>
      is_inverse 2 (entry [[1, - 1], [- 1, - 1]]) (entry [[1 / 2, - 1 / 2], [- 1 / 2, - 1 / 2]]) \<and>
      (\<forall>lu. lu (identity_minus_null em) = Some (fin_matrix [[1 / 2, - 1 / 2], [- 1 / 2, - 1 / 2]]) \<longrightarrow>
         (\<exists>L. snd (sumInTrans lu em) = Inr L \<and> L ! 0 ! 0 = Fin (ln (1 / 2)) \<and>
              \<not> d_ge (L ! 0 ! 0) (Fin 0))))"
proof -
  have a: "isAdvancingMachine machine_cycle"
    by (simp add: machine_cycle_def isAdvancingMachine_def isSilent_def inputEmpty_def outputEmpty_def)
  obtain em where e: "evaluate ev_literal machine_cycle None = Inr em"
    and M: "identity_minus_null em = fin_matrix [[1, - 1], [- 1, - 1]]"
    by (simp add: machine_cycle_def evaluate_simps closure_simps fin_matrix_def)
  have i: "is_inverse 2 (entry [[1, - 1], [- 1, - 1]]) (entry [[1 / 2, - 1 / 2], [- 1 / 2, - 1 / 2]])"
    by (simp add: is_inverse_def mat_mul_def entry_def kron_def lessThan_Suc numeral_2_eq_2 less_Suc_eq)
  have neg: "ln (1 / 2 :: real) < 0" by (rule ln_less_zero) simp_all
  have r: "\<exists>L. snd (sumInTrans lu em) = Inr L \<and> L ! 0 ! 0 = Fin (ln (1 / 2)) \<and> \<not> d_ge (L ! 0 ! 0) (Fin 0)"
    if "lu (identity_minus_null em) = Some (fin_matrix [[1 / 2, - 1 / 2], [- 1 / 2, - 1 / 2]])" for lu
    using that neg
    by (simp add: sumInTrans_wf [OF evaluate_wf [OF e]] closure_of_def log_matrix_def fin_matrix_def d_ge_def)
  from a e M i r show ?thesis by blast
qed

text \<open>
  C8, amended: take a machine built by either constructor (it is advancing, or the
  constructor fails), with finite weights on its output-empty edges when it is evaluated
  with parameters; let the library return the inverse \<open>G\<close> of \<open>M\<close>, and let \<open>L\<close> be what
  \<^verbatim>\<open>sumInTrans\<close> returns. If state \<open>s\<close> has no output-empty outgoing transition, the diagonal
  entry of \<open>L\<close> at \<open>s\<close> is \<open>log 1 = 0\<close>. If the total weights of the output-empty paths of
  0, 1, 2, ... edges between any two states have a sum, the diagonal entry at \<open>s\<close> is at
  least 0.
\<close>

theorem closure_diagonal:
  assumes "evaluate ev m params = Inr em"
    and "params \<noteq> None \<longrightarrow> finite_null_weights em"
    and "lu (identity_minus_null em) = Some (fin_matrix G)"
    and "length G = nStates m" and "\<forall>s<nStates m. length (G ! s) = nStates m"
    and "is_inverse (nStates m) (one_minus_null em) (entry G)"
    and "s < nStates m"
  shows "isAdvancingMachine m \<and>
    (\<exists>L. snd (sumInTrans lu em) = Inr L \<and>
       ((\<forall>t\<in>set (trans (Machine.state m ! s)). \<not> outputEmpty t) \<longrightarrow>
          L ! s ! s = d_log (Fin 1) \<and> L ! s ! s = Fin 0) \<and>
       ((\<forall>a<nStates m. \<forall>b<nStates m. summable (\<lambda>k. path_weight em k a b)) \<longrightarrow>
          d_ge (L ! s ! s) (Fin 0)))"
proof -
  let ?n = "nStates m"
  let ?L = "map (map (\<lambda>x. d_log (Fin x))) G"
  have adv: "isAdvancingMachine m" using assms(1) by (auto elim: evaluate_Inr)
  have w: "wf_em em" using assms(1) by (rule evaluate_wf)
  have l: "length (EvaluatedMachine.state em) = ?n" using assms(1) by (rule evaluate_length)
  have f: "finite_null_weights em"
  proof (cases params)
    case None
    with assms(1) have "evaluate ev m None = Inr em" by simp
    then show ?thesis by (rule unevaluated_weights(1))
  next
    case (Some p)
    with assms(2) show ?thesis by simp
  qed
  have r: "snd (sumInTrans lu em) = Inr ?L"
    by (simp add: sumInTrans_wf [OF w] closure_of_def assms(3) log_matrix_def fin_matrix_def comp_def)
  have Ls: "?L ! s ! s = d_log (Fin (G ! s ! s))"
    using assms(4,5,7) by simp
  have one: "?L ! s ! s = d_log (Fin 1) \<and> ?L ! s ! s = Fin 0"
    if "\<forall>t\<in>set (trans (Machine.state m ! s)). \<not> outputEmpty t"
  proof -
    have "null_edges (EvaluatedMachine.state em ! s) = []"
      using assms(1,7) that by (rule no_output_empty_edges)
    then have row: "one_minus_null em s k = kron s k" for k
      by (simp add: one_minus_null_def null_matrix_def null_weight_def d_sum_def)
    have "mat_mul ?n (one_minus_null em) (entry G) s s = kron s s"
      using assms(6,7) by (simp add: is_inverse_def)
    moreover have "mat_mul ?n (one_minus_null em) (entry G) s s = (\<Sum>k<?n. kron s k * entry G k s)"
      by (simp add: mat_mul_def row)
    moreover have "\<dots> = entry G s s" using assms(7) by (rule kron_row)
    ultimately have "G ! s ! s = 1" by (simp add: entry_def kron_def)
    with Ls show ?thesis by simp
  qed
  have two: "d_ge (?L ! s ! s) (Fin 0)"
    if all: "\<forall>a<?n. \<forall>b<?n. summable (\<lambda>k. path_weight em k a b)"
  proof -
    have "(\<lambda>k. path_weight em k s s) sums entry G s s"
      using w f assms(6,7) all unfolding l [symmetric]
      by (intro closure_sums) simp_all
    then have sm: "summable (\<lambda>k. path_weight em k s s)"
      and g: "G ! s ! s = (\<Sum>k. path_weight em k s s)"
      by (simp_all add: sums_iff entry_def)
    have "sum (\<lambda>k. path_weight em k s s) {0} \<le> (\<Sum>k. path_weight em k s s)"
      using sm by (intro sum_le_suminf) (simp_all add: path_weight_nonneg)
    then have "1 \<le> G ! s ! s" by (simp add: g kron_def)
    then have pos: "0 < G ! s ! s" and nn: "0 \<le> ln (G ! s ! s)" by simp_all
    have "d_log (Fin (G ! s ! s)) = Fin (ln (G ! s ! s))" using pos by simp
    with Ls have "?L ! s ! s = Fin (ln (G ! s ! s))" by (rule trans)
    moreover have "d_ge (Fin (ln (G ! s ! s))) (Fin 0)" using nn by (auto simp: d_ge_def)
    ultimately show ?thesis by (rule ssubst)
  qed
  show ?thesis
  proof (intro conjI exI [of _ ?L] impI)
    show "isAdvancingMachine m" by (rule adv)
    show "snd (sumInTrans lu em) = Inr ?L" by (rule r)
    show "?L ! s ! s = d_log (Fin 1)" "?L ! s ! s = Fin 0"
      if "\<forall>t\<in>set (trans (Machine.state m ! s)). \<not> outputEmpty t"
      using one [OF that] by simp_all
    show "d_ge (?L ! s ! s) (Fin 0)"
      if "\<forall>a<?n. \<forall>b<?n. summable (\<lambda>k. path_weight em k a b)"
      using that by (rule two)
  qed
qed

theorem closure_diagonal_witness:
  "(\<exists>em. evaluate ev_literal machine_two None = Inr em \<and>
      identity_minus_null em = fin_matrix [[1, 0], [0, 1]] \<and>
      is_inverse 2 (one_minus_null em) (entry [[1, 0], [0, 1]]) \<and>
      (\<forall>t\<in>set (trans (Machine.state machine_two ! 0)). \<not> outputEmpty t) \<and>
      (\<forall>a<2. \<forall>b<2. summable (\<lambda>k. path_weight em k a b)) \<and>
      (\<exists>L. snd (sumInTrans (\<lambda>M. Some (fin_matrix [[1, 0], [0, 1]])) em) = Inr L \<and>
           L ! 0 ! 0 = Fin 0 \<and> d_ge (L ! 0 ! 0) (Fin 0))) \<and>
   (\<exists>em. evaluate ev_literal machine_half (Some ()) = Inr em \<and>
      finite_null_weights em \<and>
      identity_minus_null em = fin_matrix [[1 / 2]] \<and>
      is_inverse 1 (one_minus_null em) (entry [[2]]) \<and>
      summable (\<lambda>k. path_weight em k 0 0) \<and>
      (\<exists>L. snd (sumInTrans (\<lambda>M. Some (fin_matrix [[2]])) em) = Inr L \<and>
           d_ge (L ! 0 ! 0) (Fin 0)))"
proof -
  have first: "\<exists>em. evaluate ev_literal machine_two None = Inr em \<and>
      identity_minus_null em = fin_matrix [[1, 0], [0, 1]] \<and>
      is_inverse 2 (one_minus_null em) (entry [[1, 0], [0, 1]]) \<and>
      (\<forall>t\<in>set (trans (Machine.state machine_two ! 0)). \<not> outputEmpty t) \<and>
      (\<forall>a<2. \<forall>b<2. summable (\<lambda>k. path_weight em k a b)) \<and>
      (\<exists>L. snd (sumInTrans (\<lambda>M. Some (fin_matrix [[1, 0], [0, 1]])) em) = Inr L \<and>
           L ! 0 ! 0 = Fin 0 \<and> d_ge (L ! 0 ! 0) (Fin 0))"
  proof -
    let ?G = "[[1, 0], [0, 1 :: real]]"
    let ?lu = "\<lambda>M :: double list list. Some (fin_matrix ?G)"
    obtain em where e: "evaluate ev_literal machine_two None = Inr em"
      and st: "null_edges (EvaluatedMachine.state em ! 0) = []"
        "null_edges (EvaluatedMachine.state em ! Suc 0) = []"
      and n: "length (EvaluatedMachine.state em) = 2"
      by (simp add: machine_two_def evaluate_simps null_edges_def edges_def edges_out_def emptyToken_def)
    have ns: "nStates machine_two = 2" by (simp add: nStates_def machine_two_def)
    have M: "identity_minus_null em = fin_matrix ?G"
      by (simp add: identity_minus_null_def n null_weight_def st d_sum_def d_sub_def fin_matrix_def
            upt_conv_Cons)
    have o: "one_minus_null em a b = kron a b" if "a < 2" for a b
      using that st by (cases a) (simp_all add: one_minus_null_def null_matrix_def null_weight_def d_sum_def)
    have i: "is_inverse 2 (one_minus_null em) (entry ?G)"
      by (simp add: is_inverse_def mat_mul_def o entry_def kron_def lessThan_Suc numeral_2_eq_2 less_Suc_eq)
    have ne: "\<forall>t\<in>set (trans (Machine.state machine_two ! 0)). \<not> outputEmpty t"
      by (simp add: machine_two_def outputEmpty_def)
    have p: "path_weight em (Suc k) a b = 0" if "a < 2" for k a b
      using that st by (cases a) simp_all
    have "summable (\<lambda>k. path_weight em k a b)" if "a < 2" for a b
    proof (rule summable_finite [of "{0}"])
      fix k :: nat assume "k \<notin> {0}"
      then obtain j where "k = Suc j" by (cases k) auto
      with that show "path_weight em k a b = 0" by (simp only: p)
    qed simp
    then have s: "\<forall>a<2. \<forall>b<2. summable (\<lambda>k. path_weight em k a b)" by blast
    from closure_diagonal [OF e, of ?lu ?G 0] M i ne s
    have "\<exists>L. snd (sumInTrans ?lu em) = Inr L \<and> L ! 0 ! 0 = Fin 0 \<and> d_ge (L ! 0 ! 0) (Fin 0)"
      by (auto simp add: ns less_Suc_eq numeral_2_eq_2)
    with e M i ne s show ?thesis by blast
  qed
  have second: "\<exists>em. evaluate ev_literal machine_half (Some ()) = Inr em \<and>
      finite_null_weights em \<and>
      identity_minus_null em = fin_matrix [[1 / 2]] \<and>
      is_inverse 1 (one_minus_null em) (entry [[2]]) \<and>
      summable (\<lambda>k. path_weight em k 0 0) \<and>
      (\<exists>L. snd (sumInTrans (\<lambda>M. Some (fin_matrix [[2]])) em) = Inr L \<and>
           d_ge (L ! 0 ! 0) (Fin 0))"
  proof -
    let ?lu = "\<lambda>M :: double list list. Some (fin_matrix [[2]])"
    obtain em where e: "evaluate ev_literal machine_half (Some ()) = Inr em"
      and st: "null_edges (EvaluatedMachine.state em ! 0) = [(0, \<lparr> logWeight = Fin (ln (1 / 2)), transIndex = 0 \<rparr>)]"
      and n: "length (EvaluatedMachine.state em) = 1"
      by (simp add: machine_half_def evaluate_simps ev_literal_def null_edges_def edges_def
            edges_out_def emptyToken_def)
    have ns: "nStates machine_half = 1" by (simp add: nStates_def machine_half_def)
    have x: "exp (ln (1 / 2 :: real)) = 1 / 2" by (rule exp_ln) simp
    have f: "finite_null_weights em"
      using n st by (cases "EvaluatedMachine.state em") (simp_all add: finite_null_weights_def)
    have M: "identity_minus_null em = fin_matrix [[1 / 2]]"
      using x by (simp add: identity_minus_null_def n null_weight_def st d_sum_def d_sub_def fin_matrix_def)
    have o: "one_minus_null em 0 0 = 1 / 2"
      using x by (simp add: one_minus_null_def null_matrix_def null_weight_def st d_sum_def kron_def)
    have i: "is_inverse 1 (one_minus_null em) (entry [[2]])"
      by (simp add: is_inverse_def mat_mul_def o entry_def kron_def)
    have p: "path_weight em k 0 0 = (1 / 2) ^ k" for k
      using x by (induction k) (simp_all add: st kron_def)
    have s: "summable (\<lambda>k. path_weight em k 0 0)"
      by (simp add: p summable_geometric_iff)
    from closure_diagonal [OF e, of ?lu "[[2]]" 0] f M i s
    have "\<exists>L. snd (sumInTrans ?lu em) = Inr L \<and> d_ge (L ! 0 ! 0) (Fin 0)"
      by (auto simp add: ns)
    with e f M i s show ?thesis by blast
  qed
  from first second show ?thesis by (rule conjI)
qed

end
